theory Spec2Isabelle
  imports Complex_Main "HOL-Library.Word"
begin

unbundle bit_operations_syntax

section \<open>Common data: bytes, JavaScript numbers, errors\<close>

text \<open>
  A \<open>Uint8Array\<close> is a list of 8-bit words; storing a number into it keeps the number modulo
  256 (\<open>word_of_int\<close>). A JavaScript number that holds an integer is an \<open>int\<close>; a plain
  array of numbers is an \<open>int list\<close>.
\<close>

type_synonym u8 = "8 word"
type_synonym u32 = "32 word"

datatype error =
    InvalidIdentifier   \<comment> \<open>\<open>throw new Error('UID must be an 8-byte array')\<close>\<close>
  | MalformedCiphertext \<comment> \<open>named by the specification only; no statement of the source raises it\<close>
  | RangeError          \<comment> \<open>raised by \<open>DataView\<close> and \<open>TypedArray.set\<close> on an out-of-bounds access\<close>

section \<open>Command encoder (Libre2Commands.js)\<close>

definition getUidCommand :: "u8 list" where
  "getUidCommand = [0x26, 0x01, 0x00, 0x00, 0x00, 0x00, 0x00, 0x00]"

definition getReadBlockCommand :: "int \<Rightarrow> u8 list" where
  "getReadBlockCommand blockNumber =
     [0x23, word_of_int blockNumber, 0x00, 0x00, 0x00, 0x00, 0x00, 0x00]"

text \<open>
  \<open>getReadMultipleBlocksCommand\<close>: the only branch is \<open>if (numBlocks > 3) numBlocks = 3\<close>
  (the warning it prints is not part of the result); the frame is then built by
  \<open>new Uint8Array([0x23, startBlock, numBlocks - 1, 0, 0, 0, 0, 0])\<close>.
\<close>

definition getReadMultipleBlocksCommand :: "int \<Rightarrow> int \<Rightarrow> u8 list" where
  "getReadMultipleBlocksCommand startBlock numBlocks =
     (let numBlocks' = (if numBlocks > 3 then 3 else numBlocks)
      in [0x23, word_of_int startBlock, word_of_int (numBlocks' - 1),
          0x00, 0x00, 0x00, 0x00, 0x00])"

section \<open>Key derivation (Libre2Encryption)\<close>

text \<open>
  The arrays of the key derivation are plain JavaScript arrays of numbers. All values stay
  between 0 and 511, so the 32-bit conversions of \<open>^\<close> and \<open>&\<close> do not change them and
  the operators are the bitwise operations on \<open>int\<close>. \<open>%\<close> is the remainder that takes the
  sign of the dividend.
\<close>

definition js_rem :: "int \<Rightarrow> int \<Rightarrow> int" where
  "js_rem a b = sgn a * (\<bar>a\<bar> mod \<bar>b\<bar>)"

text \<open>The substitution table of \<open>_transformMACState\<close>, as the source lists it: three rows of 16.\<close>

definition sBox :: "int list" where
  "sBox =
    [0x63, 0x7c, 0x77, 0x7b, 0xf2, 0x6b, 0x6f, 0xc5, 0x30, 0x01, 0x67, 0x2b, 0xfe, 0xd7, 0xab, 0x76,
     0xca, 0x82, 0xc9, 0x7d, 0xfa, 0x59, 0x47, 0xf0, 0xad, 0xd4, 0xa2, 0xaf, 0x9c, 0xa4, 0x72, 0xc0,
     0x8c, 0xa1, 0x89, 0x0d, 0xbf, 0xe6, 0x42, 0x68, 0x41, 0x99, 0x2d, 0x0f, 0xb0, 0x54, 0xbb, 0x16]"

text \<open>
  First loop of \<open>_transformMACState\<close>:
  \<open>for (i = 0; i < 8; i++) state[i] = sBox[state[i] % sBox.length]\<close>.
\<close>

definition substituteBytes :: "int list \<Rightarrow> int list" where
  "substituteBytes state0 =
     fold (\<lambda>i state. state[i := sBox ! nat (js_rem (state ! i) (int (length sBox)))])
       [0..<8] state0"

text \<open>
  Second loop: \<open>temp = [...state]\<close>, then
  \<open>state[i] = (temp[i] + temp[(i+1) % 8]) & 0xFF\<close>.
\<close>

definition mixBytes :: "int list \<Rightarrow> int list" where
  "mixBytes state0 =
     (let temp = state0
      in fold (\<lambda>i state. state[i := (temp ! i + temp ! ((i + 1) mod 8)) AND 0xFF])
           [0..<8] state0)"

definition transformMACState :: "int list \<Rightarrow> int list" where
  "transformMACState state = mixBytes (substituteBytes state)"

definition initialMACState :: "int list" where
  "initialMACState = [0x09, 0x76, 0x42, 0x71, 0xF8, 0xC4, 0x46, 0x93]"

text \<open>\<open>_calculateMAC\<close>: \<open>state[i] ^= uidArray[7-i]\<close> for \<open>i\<close> in 0..7, then the transformation.\<close>

definition xorUid :: "int list \<Rightarrow> int list" where
  "xorUid uidArray =
     fold (\<lambda>i state. state[i := state ! i XOR uidArray ! (7 - i)]) [0..<8] initialMACState"

definition calculateMAC :: "int list \<Rightarrow> int list" where
  "calculateMAC uidArray = transformMACState (xorUid uidArray)"

text \<open>\<open>_generateSeed\<close>: three loops over a fresh array of 16 zeros.\<close>

definition generateSeed :: "int list \<Rightarrow> int list \<Rightarrow> int list" where
  "generateSeed macBytes uidArray =
     (let seed0 = replicate 16 0;
          seed1 = fold (\<lambda>i seed. seed[i := macBytes ! i]) [0..<8] seed0;
          seed2 = fold (\<lambda>i seed. seed[i + 8 := uidArray ! i XOR macBytes ! i]) [0..<8] seed1
      in fold (\<lambda>i seed. seed[i := ((seed ! i XOR 0x55) + int i) AND 0xFF]) [0..<16] seed2)"

text \<open>
  \<open>_deriveKey\<close>. The key type is a string; anything but \<open>'encrypt'\<close> selects 0x02. Each of
  the four rounds runs the additive loop in place, copies the key (\<open>temp = [...key]\<close>) and
  then stores \<open>temp[(i + round) % 16]\<close> at index \<open>i\<close>. The function is only called on the
  16-element seed of \<open>_generateSeed\<close>.
\<close>

definition keyTypeValue :: "string \<Rightarrow> int" where
  "keyTypeValue keyType = (if keyType = ''encrypt'' then 0x01 else 0x02)"

definition deriveRound :: "int list \<Rightarrow> nat \<Rightarrow> int list \<Rightarrow> int list" where
  "deriveRound seed rnd key0 =
     (let key1 = fold (\<lambda>i key.
                   key[i := ((key ! i + seed ! (i mod 8)) XOR seed ! (8 + (i mod 8))) AND 0xFF])
                   [0..<16] key0;
          temp = key1
      in fold (\<lambda>i key. key[i := temp ! ((i + rnd) mod 16)]) [0..<16] key1)"

definition deriveKey :: "int list \<Rightarrow> string \<Rightarrow> int list" where
  "deriveKey seed keyType =
     (let key0 = replicate 16 0;
          key1 = fold (\<lambda>i key. key[i := seed ! i XOR keyTypeValue keyType]) [0..<16] key0
      in fold (deriveRound seed) [0..<4] key1)"

record KeyPair =
  encryptionKey :: "u8 list"
  decryptionKey :: "u8 list"
  mac :: "u8 list"

text \<open>
  \<open>generateKeys(uid, info = '')\<close>: the identifier is a \<open>Uint8Array\<close>; a length other than 8
  throws. \<open>Array.from\<close> turns the bytes into numbers, \<open>new Uint8Array\<close> turns the results
  back into bytes.
\<close>

definition generateKeys :: "u8 list \<Rightarrow> string \<Rightarrow> error + KeyPair" where
  "generateKeys uid info =
     (if length uid \<noteq> 8 then Inl InvalidIdentifier
      else
        let uidArray = map uint uid;
            macBytes = calculateMAC uidArray;
            seed = generateSeed macBytes uidArray;
            encKey = deriveKey seed ''encrypt'';
            decKey = deriveKey seed ''decrypt''
        in Inr \<lparr>encryptionKey = map word_of_int encKey,
                decryptionKey = map word_of_int decKey,
                mac = map word_of_int macBytes\<rparr>)"

text \<open>
  The key derivation as the specification words it (section 4.2, step 3), for comparison
  with \<open>deriveKey\<close>: \<open>key[i] = seed[i] XOR discriminator\<close>; four rounds, each computing all 16
  additive updates \<open>((key[i] + seed[i mod 8]) XOR seed[8 + (i mod 8)]) mod 256\<close> and then
  rotating the whole array cyclically by the round index.
\<close>

definition spec_initKey :: "int \<Rightarrow> int list \<Rightarrow> int list" where
  "spec_initKey discriminator seed = map (\<lambda>i. seed ! i XOR discriminator) [0..<16]"

definition spec_additive :: "int list \<Rightarrow> int list \<Rightarrow> int list" where
  "spec_additive seed key =
     map (\<lambda>i. ((key ! i + seed ! (i mod 8)) XOR seed ! (8 + (i mod 8))) mod 256) [0..<16]"

definition spec_round :: "int list \<Rightarrow> nat \<Rightarrow> int list \<Rightarrow> int list" where
  "spec_round seed r key = rotate r (spec_additive seed key)"

definition spec_deriveKey :: "int \<Rightarrow> int list \<Rightarrow> int list" where
  "spec_deriveKey discriminator seed =
     spec_round seed 3 (spec_round seed 2 (spec_round seed 1 (spec_round seed 0
       (spec_initKey discriminator seed))))"

section \<open>Block cipher adapter (Libre2Encryption)\<close>

text \<open>
  A \<open>WordArray\<close> of the cipher library: 32-bit words, big-endian, and the number of
  significant bytes. The bitwise operators of JavaScript work on 32-bit integers, so a word
  is a \<open>32 word\<close>; \<open>>>\<close> is the arithmetic shift.
\<close>

record WordArray =
  words :: "u32 list"
  sigBytes :: nat

text \<open>\<open>u8arr[i] || 0\<close>: an index past the end reads \<open>undefined\<close>, which \<open>||\<close> turns into 0.\<close>

definition byteOr0 :: "u8 list \<Rightarrow> nat \<Rightarrow> u32" where
  "byteOr0 u8arr i = (if i < length u8arr then ucast (u8arr ! i) else 0)"

text \<open>
  \<open>_uint8ArrayToWordArray\<close>: \<open>for (i = 0; i < len; i += 4) words.push(...)\<close>; the loop runs
  for \<open>i = 4 * q\<close> with \<open>q < \<lceil>len / 4\<rceil>\<close>. The pushed word is
  \<open>(b0 << 24) | (b1 << 16) | (b2 << 8) | b3\<close>.
\<close>

definition packWord :: "u32 \<Rightarrow> u32 \<Rightarrow> u32 \<Rightarrow> u32 \<Rightarrow> u32" where
  "packWord b0 b1 b2 b3 = push_bit 24 b0 OR push_bit 16 b1 OR push_bit 8 b2 OR b3"

definition uint8ArrayToWordArray :: "u8 list \<Rightarrow> WordArray" where
  "uint8ArrayToWordArray u8arr =
     (let len = length u8arr
      in \<lparr>words = map (\<lambda>q. let i = 4 * q
                         in packWord (byteOr0 u8arr i) (byteOr0 u8arr (i + 1))
                              (byteOr0 u8arr (i + 2)) (byteOr0 u8arr (i + 3)))
                    [0..<(len + 3) div 4],
          sigBytes = len\<rparr>)"

text \<open>\<open>words[i / 4]\<close> under \<open>>>\<close>: a missing word is \<open>undefined\<close> and shifts as 0.\<close>

definition wordOr0 :: "u32 list \<Rightarrow> nat \<Rightarrow> u32" where
  "wordOr0 ws q = (if q < length ws then ws ! q else 0)"

text \<open>
  \<open>_wordArrayToUint8Array\<close>: the outer loop runs over \<open>i = 0, 4, ...\<close> below \<open>sigBytes\<close>, the
  inner one over \<open>j < min(4, sigBytes - i)\<close>, and every byte
  \<open>(word >> (24 - j * 8)) & 0xff\<close> is stored at the next free offset of a
  \<open>Uint8Array\<close> of \<open>sigBytes\<close> bytes.
\<close>

definition byteOfWord :: "u32 \<Rightarrow> nat \<Rightarrow> u8" where
  "byteOfWord word j = ucast (signed_drop_bit (24 - j * 8) word AND 0xff)"

definition wordArrayToUint8Array :: "WordArray \<Rightarrow> u8 list" where
  "wordArrayToUint8Array wordArray =
     concat (map (\<lambda>q. let i = 4 * q; word = wordOr0 (words wordArray) (i div 4)
                      in map (byteOfWord word) [0..<min 4 (sigBytes wordArray - i)])
                 [0..<(sigBytes wordArray + 3) div 4])"

text \<open>
  Modelled from the spec: the cipher itself is the imported library \<open>crypto-js\<close>, which is
  not part of the repository. Section 4.3 fixes what is used of it: a 128-bit block cipher
  in chained-block (CBC) mode, a fixed all-zero 128-bit initialization vector and no padding.
  The block cipher (AES under a key given as words) is a parameter of the model: \<open>E k\<close>
  encrypts and \<open>D k\<close> decrypts one block of four words. Chaining: an encrypted block is
  \<open>E k\<close> of the plaintext block XOR the previous ciphertext block; a decrypted block is
  \<open>D k\<close> of the ciphertext block, XOR the previous ciphertext block; the first block is
  chained to the initialization vector. With no padding the library processes
  \<open>\<lceil>sigBytes / 16\<rceil>\<close> blocks, reads missing words as 0, and returns a \<open>WordArray\<close> with
  the \<open>sigBytes\<close> of its input; it has no failing branch.
\<close>

type_synonym blockCipher = "u32 list \<Rightarrow> u32 list \<Rightarrow> u32 list"

definition xorBlock :: "u32 list \<Rightarrow> u32 list \<Rightarrow> u32 list" where
  "xorBlock ws block = map2 (XOR) ws block"

definition zeroIV :: "u32 list" where
  "zeroIV = [0, 0, 0, 0]"

fun cbcEncryptBlocks :: "(u32 list \<Rightarrow> u32 list) \<Rightarrow> u32 list \<Rightarrow> u32 list list \<Rightarrow> u32 list list" where
  "cbcEncryptBlocks enc prevBlock [] = []"
| "cbcEncryptBlocks enc prevBlock (b # bs) =
     (let c = enc (xorBlock b prevBlock) in c # cbcEncryptBlocks enc c bs)"

fun cbcDecryptBlocks :: "(u32 list \<Rightarrow> u32 list) \<Rightarrow> u32 list \<Rightarrow> u32 list list \<Rightarrow> u32 list list" where
  "cbcDecryptBlocks dec prevBlock [] = []"
| "cbcDecryptBlocks dec prevBlock (c # cs) =
     xorBlock (dec c) prevBlock # cbcDecryptBlocks dec c cs"

fun chopBlocks :: "nat \<Rightarrow> u32 list \<Rightarrow> u32 list list" where
  "chopBlocks 0 ws = []"
| "chopBlocks (Suc n) ws = take 4 ws # chopBlocks n (drop 4 ws)"

definition processBlocks :: "(u32 list list \<Rightarrow> u32 list list) \<Rightarrow> WordArray \<Rightarrow> WordArray" where
  "processBlocks f data =
     (let nBlocksReady = (sigBytes data + 15) div 16;
          nWordsReady = nBlocksReady * 4;
          nBytesReady = min (nWordsReady * 4) (sigBytes data);
          dataWords = take nWordsReady (words data @ replicate nWordsReady 0)
      in \<lparr>words = concat (f (chopBlocks nBlocksReady dataWords)), sigBytes = nBytesReady\<rparr>)"

definition cbcEncrypt :: "blockCipher \<Rightarrow> WordArray \<Rightarrow> WordArray \<Rightarrow> WordArray" where
  "cbcEncrypt E dataWords keyWords =
     processBlocks (cbcEncryptBlocks (E (words keyWords)) zeroIV) dataWords"

definition cbcDecrypt :: "blockCipher \<Rightarrow> WordArray \<Rightarrow> WordArray \<Rightarrow> WordArray" where
  "cbcDecrypt D dataWords keyWords =
     processBlocks (cbcDecryptBlocks (D (words keyWords)) zeroIV) dataWords"

text \<open>
  \<open>encrypt(data, key)\<close> and \<open>decrypt(data, key)\<close>: convert both arguments to word arrays, run
  the cipher, convert the result back. Neither function checks a length or throws, so the
  error side of the result type is never used.
\<close>

definition encrypt :: "blockCipher \<Rightarrow> u8 list \<Rightarrow> u8 list \<Rightarrow> error + u8 list" where
  "encrypt E data key =
     (let dataWords = uint8ArrayToWordArray data;
          keyWords = uint8ArrayToWordArray key;
          encrypted = cbcEncrypt E dataWords keyWords
      in Inr (wordArrayToUint8Array encrypted))"

definition decrypt :: "blockCipher \<Rightarrow> u8 list \<Rightarrow> u8 list \<Rightarrow> error + u8 list" where
  "decrypt D data key =
     (let dataWords = uint8ArrayToWordArray data;
          keyWords = uint8ArrayToWordArray key;
          decrypted = cbcDecrypt D dataWords keyWords
      in Inr (wordArrayToUint8Array decrypted))"

text \<open>
  A small invertible block transformation, used where a concrete cipher is needed to
  evaluate \<open>encrypt\<close> and \<open>decrypt\<close>: every word of the block is XORed with the first key
  word. It is its own inverse.
\<close>

definition xorCipher :: blockCipher where
  "xorCipher k b = map (\<lambda>w. w XOR (case k of [] \<Rightarrow> 0 | k0 # _ \<Rightarrow> k0)) b"

section \<open>Sensor data decoder (Libre2Reader.js)\<close>

subsection \<open>Views on a byte buffer\<close>

text \<open>
  Every buffer the decoder reads is a freshly allocated \<open>Uint8Array\<close>, so \<open>data.buffer\<close> is
  the storage of exactly its bytes. \<open>new DataView(buffer, byteOffset, byteLength)\<close> throws a
  \<open>RangeError\<close> when the range leaves the buffer, and so does a \<open>get\<close> that leaves the
  view. The multi-byte reads of the decoder are all little-endian.
\<close>

definition newDataView :: "u8 list \<Rightarrow> nat \<Rightarrow> nat \<Rightarrow> error + u8 list" where
  "newDataView buffer byteOffset byteLength =
     (if byteOffset + byteLength > length buffer then Inl RangeError
      else Inr (take byteLength (drop byteOffset buffer)))"

definition getUint8 :: "u8 list \<Rightarrow> nat \<Rightarrow> error + int" where
  "getUint8 view byteOffset =
     (if byteOffset + 1 > length view then Inl RangeError else Inr (uint (view ! byteOffset)))"

definition getUint16 :: "u8 list \<Rightarrow> nat \<Rightarrow> error + int" where
  "getUint16 view byteOffset =
     (if byteOffset + 2 > length view then Inl RangeError
      else Inr (uint (view ! byteOffset) + 256 * uint (view ! (byteOffset + 1))))"

definition getUint32 :: "u8 list \<Rightarrow> nat \<Rightarrow> error + int" where
  "getUint32 view byteOffset =
     (if byteOffset + 4 > length view then Inl RangeError
      else Inr (uint (view ! byteOffset) + 256 * uint (view ! (byteOffset + 1))
                + 65536 * uint (view ! (byteOffset + 2))
                + 16777216 * uint (view ! (byteOffset + 3))))"

subsection \<open>Readings\<close>

text \<open>
  A reading: \<open>timestamp\<close> is a \<open>Date\<close>, held as its time value in milliseconds since the
  epoch; \<open>glucoseValue\<close> is \<open>glucoseRaw / 10\<close>, held as the exact quotient.
\<close>

record GlucoseReading =
  timestamp :: int
  glucoseValue :: rat
  unit :: string

text \<open>
  \<open>_parseGlucoseData\<close>. The loop \<open>for (i = 0; i < numReadings; i++)\<close> leaves with \<open>break\<close>
  when the slot at \<open>headerSize + i * readingSize\<close> does not fit; a data type other than
  0x01 is only logged.
\<close>

function parseLoop :: "u8 list \<Rightarrow> int \<Rightarrow> nat \<Rightarrow> GlucoseReading list \<Rightarrow> error + GlucoseReading list" where
  "parseLoop data numReadings i readings =
     (if int i < numReadings then
        (let offset = 10 + (i * 6)
         in if offset + 6 > length data then Inr readings
            else
              (case newDataView data offset 6 of
                 Inl e \<Rightarrow> Inl e
               | Inr view \<Rightarrow>
                   (case getUint32 view 0 of
                      Inl e \<Rightarrow> Inl e
                    | Inr timestampRaw \<Rightarrow>
                        (case getUint16 view 4 of
                           Inl e \<Rightarrow> Inl e
                         | Inr glucoseRaw \<Rightarrow>
                             parseLoop data numReadings (i + 1)
                               (readings @ [\<lparr>timestamp = timestampRaw * 1000,
                                              glucoseValue = of_int glucoseRaw / 10,
                                              unit = ''mg/dL''\<rparr>])))))
      else Inr readings)"
  by pat_completeness auto
termination
  by (relation "measure (\<lambda>(data, numReadings, i, readings). nat numReadings - i)") auto

declare parseLoop.simps [simp del]

definition parseGlucoseData :: "u8 list \<Rightarrow> error + GlucoseReading list" where
  "parseGlucoseData data =
     (if length data < 16 then Inr []
      else
        (case newDataView data 0 (length data) of
           Inl e \<Rightarrow> Inl e
         | Inr header \<Rightarrow>
             (case getUint8 header 0 of
                Inl e \<Rightarrow> Inl e
              | Inr dataType \<Rightarrow>
                  (case getUint8 header 2 of
                     Inl e \<Rightarrow> Inl e
                   | Inr numReadings \<Rightarrow> parseLoop data numReadings 0 []))))"

text \<open>
  \<open>_extractHistoricalReadings\<close>. The loop runs over \<open>numReadings = 32\<close> slots from
  \<open>historyStartOffset = 124\<close>; it leaves with \<open>break\<close> when a slot does not fit and goes on
  with \<open>continue\<close> when the timestamp is 0 or above 4294967295 or the raw glucose is 0.
\<close>

function historyLoop :: "u8 list \<Rightarrow> nat \<Rightarrow> nat \<Rightarrow> GlucoseReading list \<Rightarrow> error + GlucoseReading list" where
  "historyLoop buffer numReadings i readings =
     (if i < numReadings then
        (let offset = 124 + (i * 6)
         in if offset + 6 > length buffer then Inr readings
            else
              (case newDataView buffer offset 6 of
                 Inl e \<Rightarrow> Inl e
               | Inr view \<Rightarrow>
                   (case getUint32 view 0 of
                      Inl e \<Rightarrow> Inl e
                    | Inr timestampRaw \<Rightarrow>
                        if timestampRaw = 0 \<or> timestampRaw > 4294967295
                        then historyLoop buffer numReadings (i + 1) readings
                        else
                          (case getUint16 view 4 of
                             Inl e \<Rightarrow> Inl e
                           | Inr glucoseRaw \<Rightarrow>
                               if glucoseRaw = 0
                               then historyLoop buffer numReadings (i + 1) readings
                               else historyLoop buffer numReadings (i + 1)
                                      (readings @ [\<lparr>timestamp = timestampRaw * 1000,
                                                     glucoseValue = of_int glucoseRaw / 10,
                                                     unit = ''mg/dL''\<rparr>])))))
      else Inr readings)"
  by pat_completeness auto
termination
  by (relation "measure (\<lambda>(buffer, numReadings, i, readings). numReadings - i)") auto

declare historyLoop.simps [simp del]

definition extractHistoricalReadings :: "u8 list \<Rightarrow> error + GlucoseReading list" where
  "extractHistoricalReadings buffer = historyLoop buffer 32 0 []"

subsection \<open>The other fields of the tag memory\<close>

definition hexDigit :: "nat \<Rightarrow> char" where
  "hexDigit d = ''0123456789ABCDEF'' ! d"

text \<open>\<open>b.toString(16).padStart(2, '0')\<close>, in upper case.\<close>

definition hexByte :: "u8 \<Rightarrow> string" where
  "hexByte b = [hexDigit (unat b div 16), hexDigit (unat b mod 16)]"

text \<open>\<open>buffer.slice(24, 32)\<close> keeps the bytes that exist in that range.\<close>

definition extractSerialNumber :: "u8 list \<Rightarrow> string" where
  "extractSerialNumber buffer = concat (map hexByte (take 8 (drop 24 buffer)))"

definition extractSensorStartTime :: "u8 list \<Rightarrow> error + int" where
  "extractSensorStartTime buffer =
     (case newDataView buffer 317 4 of
        Inl e \<Rightarrow> Inl e
      | Inr view \<Rightarrow>
          (case getUint32 view 0 of Inl e \<Rightarrow> Inl e | Inr t \<Rightarrow> Inr (t * 1000)))"

definition extractCurrentGlucose :: "u8 list \<Rightarrow> error + rat" where
  "extractCurrentGlucose buffer =
     (case newDataView buffer 26 2 of
        Inl e \<Rightarrow> Inl e
      | Inr view \<Rightarrow>
          (case getUint16 view 0 of Inl e \<Rightarrow> Inl e | Inr v \<Rightarrow> Inr (of_int v / 10)))"

definition trendDirections :: "string list" where
  "trendDirections =
     [''Unknown'', ''Rising quickly'', ''Rising'', ''Stable'', ''Falling'', ''Falling quickly'']"

text \<open>
  \<open>trendDirections[Math.min(buffer[28], 5)]\<close>; a buffer without byte 28 gives \<open>undefined\<close>,
  here \<open>None\<close>.
\<close>

definition extractTrend :: "u8 list \<Rightarrow> string option" where
  "extractTrend buffer =
     (if 28 < length buffer then Some (trendDirections ! nat (min (uint (buffer ! 28)) 5)) else None)"

text \<open>\<open>states[buffer[4]] || 'Unknown'\<close>.\<close>

definition extractSensorState :: "u8 list \<Rightarrow> string" where
  "extractSensorState buffer =
     (if 4 < length buffer then
        (let state = uint (buffer ! 4)
         in if state = 1 then ''Not activated''
            else if state = 2 then ''Activating''
            else if state = 3 then ''Active''
            else if state = 4 then ''Expired''
            else if state = 5 then ''Shutdown''
            else if state = 6 then ''Failure''
            else ''Unknown'')
      else ''Unknown'')"

text \<open>The decimal digits of a number, as template strings print it.\<close>

fun showNat :: "nat \<Rightarrow> string" where
  "showNat n =
     (if n < 10 then [''0123456789'' ! n] else showNat (n div 10) @ [''0123456789'' ! (n mod 10)])"

record SensorAge =
  minutes :: int
  formatted :: string

definition extractSensorAge :: "u8 list \<Rightarrow> error + SensorAge" where
  "extractSensorAge buffer =
     (case newDataView buffer 316 2 of
        Inl e \<Rightarrow> Inl e
      | Inr view \<Rightarrow>
          (case getUint16 view 0 of
             Inl e \<Rightarrow> Inl e
           | Inr m \<Rightarrow>
               (let days = m div (60 * 24);
                    hours = (m mod (60 * 24)) div 60;
                    remainingMinutes = m mod 60
                in Inr \<lparr>minutes = m,
                        formatted = showNat (nat days) @ ''d '' @ showNat (nat hours) @ ''h ''
                                    @ showNat (nat remainingMinutes) @ ''m''\<rparr>)))"

subsection \<open>Assembling the tag memory\<close>

text \<open>
  \<open>target.set(source, offset)\<close> of a typed array throws a \<open>RangeError\<close> when the source does
  not fit behind the offset.
\<close>

definition typedArraySet :: "u8 list \<Rightarrow> u8 list \<Rightarrow> nat \<Rightarrow> error + u8 list" where
  "typedArraySet target source offset =
     (if offset + length source > length target then Inl RangeError
      else Inr (take offset target @ source @ drop (offset + length source) target))"

text \<open>
  \<open>_processSensorData\<close>: a zeroed buffer of \<open>blocks.length * 8\<close> bytes receives
  \<open>blocks[i].slice(2)\<close> at offset \<open>i * 8\<close>, block after block; the fields are then extracted in
  the order of the object literal.
\<close>

fun assembleLoop :: "u8 list list \<Rightarrow> nat \<Rightarrow> u8 list \<Rightarrow> error + u8 list" where
  "assembleLoop [] i buffer = Inr buffer"
| "assembleLoop (block # blocks) i buffer =
     (case typedArraySet buffer (drop 2 block) (i * 8) of
        Inl e \<Rightarrow> Inl e
      | Inr buffer' \<Rightarrow> assembleLoop blocks (i + 1) buffer')"

definition assembleBuffer :: "u8 list list \<Rightarrow> error + u8 list" where
  "assembleBuffer blocks = assembleLoop blocks 0 (replicate (length blocks * 8) 0)"

record SensorInfo =
  serialNumber :: string
  sensorStartTime :: int
  currentGlucose :: rat
  trend :: "string option"
  sensorState :: string
  sensorAge :: SensorAge
  historicalReadings :: "GlucoseReading list"

definition processSensorData :: "u8 list list \<Rightarrow> error + SensorInfo" where
  "processSensorData blocks =
     (case assembleBuffer blocks of
        Inl e \<Rightarrow> Inl e
      | Inr buffer \<Rightarrow>
          (let serial = extractSerialNumber buffer
           in case extractSensorStartTime buffer of
                Inl e \<Rightarrow> Inl e
              | Inr startTime \<Rightarrow>
                  (case extractCurrentGlucose buffer of
                     Inl e \<Rightarrow> Inl e
                   | Inr glucose \<Rightarrow>
                       (let trendName = extractTrend buffer;
                            stateName = extractSensorState buffer
                        in case extractSensorAge buffer of
                             Inl e \<Rightarrow> Inl e
                           | Inr age \<Rightarrow>
                               (case extractHistoricalReadings buffer of
                                  Inl e \<Rightarrow> Inl e
                                | Inr history \<Rightarrow>
                                    Inr \<lparr>serialNumber = serial,
                                         sensorStartTime = startTime,
                                         currentGlucose = glucose,
                                         trend = trendName,
                                         sensorState = stateName,
                                         sensorAge = age,
                                         historicalReadings = history\<rparr>)))))"

subsection \<open>The slot layout as the specification words it\<close>

text \<open>
  For comparison with the two loops (section 4.4): a slot is 6 bytes wide, a 4-byte
  little-endian timestamp in epoch seconds followed by a 2-byte little-endian raw glucose,
  and the value is \<open>raw / 10\<close>. The radio payload has the declared number of slots from
  offset 10, of which those that fit the buffer are read, and none below the 16-byte
  minimum.
\<close>

definition le16 :: "u8 list \<Rightarrow> nat \<Rightarrow> int" where
  "le16 buf off = uint (buf ! off) + 256 * uint (buf ! (off + 1))"

definition le32 :: "u8 list \<Rightarrow> nat \<Rightarrow> int" where
  "le32 buf off = uint (buf ! off) + 256 * uint (buf ! (off + 1))
                  + 65536 * uint (buf ! (off + 2)) + 16777216 * uint (buf ! (off + 3))"

definition slotReading :: "u8 list \<Rightarrow> nat \<Rightarrow> GlucoseReading" where
  "slotReading buf off =
     \<lparr>timestamp = le32 buf off * 1000,
      glucoseValue = of_int (le16 buf (off + 4)) / 10,
      unit = ''mg/dL''\<rparr>"

definition spec_radioReadings :: "u8 list \<Rightarrow> GlucoseReading list" where
  "spec_radioReadings data =
     (if length data < 16 then []
      else map (slotReading data)
             (filter (\<lambda>off. off + 6 \<le> length data)
                (map (\<lambda>i. 10 + 6 * i) [0..<unat (data ! 2)])))"

subsection \<open>The slots that the history loop keeps\<close>

text \<open>
  A closed form of what \<open>historyLoop\<close> returns, used to state its result: of the 32 slots
  from offset 124 it keeps, in order, those whose timestamp is not 0 and whose raw glucose
  is not 0. The loop's other test, \<open>timestamp > 4294967295\<close>, is not part of it: the
  timestamp is read from four bytes and never exceeds 4294967295, so that test never
  holds and no slot is skipped for a large timestamp.
\<close>

definition slotKept :: "u8 list \<Rightarrow> nat \<Rightarrow> bool" where
  "slotKept buf off = (le32 buf off \<noteq> 0 \<and> le16 buf (off + 4) \<noteq> 0)"

definition keptReadings :: "u8 list \<Rightarrow> GlucoseReading list" where
  "keptReadings buf =
     map (slotReading buf) (filter (slotKept buf) (map (\<lambda>i. 124 + 6 * i) [0..<32]))"

subsection \<open>A scan with an erased history slot\<close>

text \<open>
  Forty-three block responses of ten bytes (two status bytes, eight payload bytes), all zero
  except for the first history slot, bytes 124 to 129, which holds \<open>FF FF FF FF FF FF\<close>:
  the largest timestamp four bytes can hold and the largest raw glucose. The second
  constant is the buffer they assemble to.
\<close>

definition erasedBlocks :: "u8 list list" where
  "erasedBlocks =
     [[0, 0, 0, 0, 0, 0, 0, 0, 0, 0], [0, 0, 0, 0, 0, 0, 0, 0, 0, 0],
      [0, 0, 0, 0, 0, 0, 0, 0, 0, 0], [0, 0, 0, 0, 0, 0, 0, 0, 0, 0],
      [0, 0, 0, 0, 0, 0, 0, 0, 0, 0], [0, 0, 0, 0, 0, 0, 0, 0, 0, 0],
      [0, 0, 0, 0, 0, 0, 0, 0, 0, 0], [0, 0, 0, 0, 0, 0, 0, 0, 0, 0],
      [0, 0, 0, 0, 0, 0, 0, 0, 0, 0], [0, 0, 0, 0, 0, 0, 0, 0, 0, 0],
      [0, 0, 0, 0, 0, 0, 0, 0, 0, 0], [0, 0, 0, 0, 0, 0, 0, 0, 0, 0],
      [0, 0, 0, 0, 0, 0, 0, 0, 0, 0], [0, 0, 0, 0, 0, 0, 0, 0, 0, 0],
      [0, 0, 0, 0, 0, 0, 0, 0, 0, 0], [0, 0, 0, 0, 0, 0, 255, 255, 255, 255],
      [0, 0, 255, 255, 0, 0, 0, 0, 0, 0], [0, 0, 0, 0, 0, 0, 0, 0, 0, 0],
      [0, 0, 0, 0, 0, 0, 0, 0, 0, 0], [0, 0, 0, 0, 0, 0, 0, 0, 0, 0],
      [0, 0, 0, 0, 0, 0, 0, 0, 0, 0], [0, 0, 0, 0, 0, 0, 0, 0, 0, 0],
      [0, 0, 0, 0, 0, 0, 0, 0, 0, 0], [0, 0, 0, 0, 0, 0, 0, 0, 0, 0],
      [0, 0, 0, 0, 0, 0, 0, 0, 0, 0], [0, 0, 0, 0, 0, 0, 0, 0, 0, 0],
      [0, 0, 0, 0, 0, 0, 0, 0, 0, 0], [0, 0, 0, 0, 0, 0, 0, 0, 0, 0],
      [0, 0, 0, 0, 0, 0, 0, 0, 0, 0], [0, 0, 0, 0, 0, 0, 0, 0, 0, 0],
      [0, 0, 0, 0, 0, 0, 0, 0, 0, 0], [0, 0, 0, 0, 0, 0, 0, 0, 0, 0],
      [0, 0, 0, 0, 0, 0, 0, 0, 0, 0], [0, 0, 0, 0, 0, 0, 0, 0, 0, 0],
      [0, 0, 0, 0, 0, 0, 0, 0, 0, 0], [0, 0, 0, 0, 0, 0, 0, 0, 0, 0],
      [0, 0, 0, 0, 0, 0, 0, 0, 0, 0], [0, 0, 0, 0, 0, 0, 0, 0, 0, 0],
      [0, 0, 0, 0, 0, 0, 0, 0, 0, 0], [0, 0, 0, 0, 0, 0, 0, 0, 0, 0],
      [0, 0, 0, 0, 0, 0, 0, 0, 0, 0], [0, 0, 0, 0, 0, 0, 0, 0, 0, 0],
      [0, 0, 0, 0, 0, 0, 0, 0, 0, 0]]"

definition erasedBuffer :: "u8 list" where
  "erasedBuffer =
     [0, 0, 0, 0, 0, 0, 0, 0, 0, 0, 0, 0, 0, 0, 0, 0, 0, 0, 0, 0, 0, 0, 0, 0, 0, 0, 0, 0, 0, 0, 0, 0,
      0, 0, 0, 0, 0, 0, 0, 0, 0, 0, 0, 0, 0, 0, 0, 0, 0, 0, 0, 0, 0, 0, 0, 0, 0, 0, 0, 0, 0, 0, 0, 0,
      0, 0, 0, 0, 0, 0, 0, 0, 0, 0, 0, 0, 0, 0, 0, 0, 0, 0, 0, 0, 0, 0, 0, 0, 0, 0, 0, 0, 0, 0, 0, 0,
      0, 0, 0, 0, 0, 0, 0, 0, 0, 0, 0, 0, 0, 0, 0, 0, 0, 0, 0, 0, 0, 0, 0, 0, 0, 0, 0, 0, 255, 255, 255, 255,
      255, 255, 0, 0, 0, 0, 0, 0, 0, 0, 0, 0, 0, 0, 0, 0, 0, 0, 0, 0, 0, 0, 0, 0, 0, 0, 0, 0, 0, 0, 0, 0,
      0, 0, 0, 0, 0, 0, 0, 0, 0, 0, 0, 0, 0, 0, 0, 0, 0, 0, 0, 0, 0, 0, 0, 0, 0, 0, 0, 0, 0, 0, 0, 0,
      0, 0, 0, 0, 0, 0, 0, 0, 0, 0, 0, 0, 0, 0, 0, 0, 0, 0, 0, 0, 0, 0, 0, 0, 0, 0, 0, 0, 0, 0, 0, 0,
      0, 0, 0, 0, 0, 0, 0, 0, 0, 0, 0, 0, 0, 0, 0, 0, 0, 0, 0, 0, 0, 0, 0, 0, 0, 0, 0, 0, 0, 0, 0, 0,
      0, 0, 0, 0, 0, 0, 0, 0, 0, 0, 0, 0, 0, 0, 0, 0, 0, 0, 0, 0, 0, 0, 0, 0, 0, 0, 0, 0, 0, 0, 0, 0,
      0, 0, 0, 0, 0, 0, 0, 0, 0, 0, 0, 0, 0, 0, 0, 0, 0, 0, 0, 0, 0, 0, 0, 0, 0, 0, 0, 0, 0, 0, 0, 0,
      0, 0, 0, 0, 0, 0, 0, 0, 0, 0, 0, 0, 0, 0, 0, 0, 0, 0, 0, 0, 0, 0, 0, 0]"

section \<open>Reading aggregator (GlucoseMonitor.js)\<close>

text \<open>
  An entry of the chart window, \<open>{value, timestamp, label}\<close> in the source (the field names
  carry a prefix here). The label is \<open>formatTime(timestamp)\<close>, the local time of day, which
  depends on the time zone of the device; \<open>formatTime\<close> is a parameter of the model, and
  \<open>formatTimeUTC\<close> is what it computes in the zone UTC.
\<close>

record ChartReading =
  r_value :: rat
  r_timestamp :: int
  r_label :: string

definition padStart2 :: "string \<Rightarrow> string" where
  "padStart2 str = (if length str < 2 then replicate (2 - length str) (CHR ''0'') @ str else str)"

definition formatTimeUTC :: "int \<Rightarrow> string" where
  "formatTimeUTC date =
     (let hours = nat ((date div 3600000) mod 24);
          mins = nat ((date div 60000) mod 60)
      in padStart2 (showNat hours) @ '':'' @ padStart2 (showNat mins))"

text \<open>
  \<open>Map.prototype.set\<close> on a map held as the list of its entries in insertion order: a key
  that is present keeps its place and takes the new value, a new key goes to the end.
\<close>

fun mapSet :: "(int \<times> 'v) list \<Rightarrow> int \<Rightarrow> 'v \<Rightarrow> (int \<times> 'v) list" where
  "mapSet [] k v = [(k, v)]"
| "mapSet ((k', v') # m) k v = (if k' = k then (k, v) # m else (k', v') # mapSet m k v)"

text \<open>
  \<open>removeDuplicateReadings\<close>: every reading is stored under \<open>reading.timestamp.getTime()\<close>,
  and the values of the map are returned.
\<close>

definition removeDuplicateReadings :: "ChartReading list \<Rightarrow> ChartReading list" where
  "removeDuplicateReadings readings =
     map snd (fold (\<lambda>reading uniqueMap. mapSet uniqueMap (r_timestamp reading) reading)
                readings [])"

text \<open>
  The part of the component state that \<open>readGlucoseData\<close> writes. The function is modelled
  from the point where the reader has returned \<open>readings\<close>; \<open>now\<close> is
  \<open>new Date().getTime()\<close>. Nothing is written when there are no readings
  (\<open>if (readings && readings.length > 0)\<close>). The comparator of \<open>sort\<close> is the difference of
  the timestamps; the sort is stable.
\<close>

record MonitorState =
  currentGlucoseState :: "rat option"
  glucoseReadings :: "ChartReading list"

text \<open>The object built for every new reading by \<open>readings.map(...)\<close>.\<close>

definition formatReading :: "(int \<Rightarrow> string) \<Rightarrow> GlucoseReading \<Rightarrow> ChartReading" where
  "formatReading formatTime reading =
     \<lparr>r_value = glucoseValue reading,
      r_timestamp = timestamp reading,
      r_label = formatTime (timestamp reading)\<rparr>"

definition readGlucoseData ::
  "(int \<Rightarrow> string) \<Rightarrow> int \<Rightarrow> GlucoseReading list \<Rightarrow> MonitorState \<Rightarrow> MonitorState" where
  "readGlucoseData formatTime now readings st =
     (if length readings > 0 then
        (let latestReading = last readings;
             formattedReadings = map (formatReading formatTime) readings;
             allReadings = glucoseReadings st @ formattedReadings;
             uniqueReadings = removeDuplicateReadings allReadings;
             sortedReadings = sort_key r_timestamp uniqueReadings;
             cutoffTime = now - (24 * 60 * 60 * 1000);
             recentReadings = filter (\<lambda>reading. r_timestamp reading > cutoffTime) sortedReadings
         in \<lparr>currentGlucoseState = Some (glucoseValue latestReading),
             glucoseReadings = recentReadings\<rparr>)
      else st)"

subsection \<open>A sample poll\<close>

text \<open>
  A window of two entries, one of them at the epoch, and three incoming readings of which
  the first and the last share a timestamp.
\<close>

definition sampleState :: MonitorState where
  "sampleState =
     \<lparr>currentGlucoseState = None,
      glucoseReadings = [\<lparr>r_value = 100, r_timestamp = 0, r_label = ''00:00''\<rparr>,
                         \<lparr>r_value = 90, r_timestamp = 87400000, r_label = ''00:16''\<rparr>]\<rparr>"

definition sampleReadings :: "GlucoseReading list" where
  "sampleReadings =
     [\<lparr>timestamp = 5000, glucoseValue = 1, unit = ''mg/dL''\<rparr>,
      \<lparr>timestamp = 86400000, glucoseValue = 3, unit = ''mg/dL''\<rparr>,
      \<lparr>timestamp = 5000, glucoseValue = 2, unit = ''mg/dL''\<rparr>]"

section \<open>Properties of the command encoder\<close>

text \<open>
  C9. For every start block and every block count, \<open>getReadMultipleBlocksCommand\<close> returns
  (it has no failing branch) the 8-byte frame \<open>[0x23, startBlock, n - 1, 0, 0, 0, 0, 0]\<close>
  where \<open>n\<close> is the block count clamped to at most 3, each entry stored as a byte; for a
  block count of 5 the third byte is 2, the encoding of the clamped count 3, and not 4, the
  encoding of 5.
\<close>

theorem readMultipleBlocks_clamped_frame:
  "getReadMultipleBlocksCommand startBlock numBlocks =
     [0x23, word_of_int startBlock, word_of_int (min numBlocks 3 - 1), 0, 0, 0, 0, 0]
   \<and> length (getReadMultipleBlocksCommand startBlock numBlocks) = 8
   \<and> getReadMultipleBlocksCommand startBlock 5 ! 2 = 2
   \<and> getReadMultipleBlocksCommand startBlock 5 ! 2 \<noteq> 4
   \<and> getReadMultipleBlocksCommand startBlock 5 = getReadMultipleBlocksCommand startBlock 3"
  by (simp add: getReadMultipleBlocksCommand_def Let_def min_def)

text \<open>
  C10. Only the upper bound of the block count is clamped: the third byte of the frame is
  \<open>(min numBlocks 3 - 1) mod 256\<close>, so for a block count of 0 it is 255 for every start
  block.
\<close>

theorem readMultipleBlocks_zero_wraps:
  "getReadMultipleBlocksCommand startBlock 0 ! 2 = 255
   \<and> uint (getReadMultipleBlocksCommand startBlock numBlocks ! 2) = (min numBlocks 3 - 1) mod 256"
proof -
  have third: "getReadMultipleBlocksCommand startBlock n ! 2 = word_of_int (min n 3 - 1)" for n
    by (simp add: getReadMultipleBlocksCommand_def Let_def min_def)
  have "uint (word_of_int (min numBlocks 3 - 1) :: u8) = (min numBlocks 3 - 1) mod 256"
    by (simp only: uint_word_of_int) simp
  moreover have "(word_of_int (min 0 3 - 1) :: u8) = 255"
    by simp
  ultimately show ?thesis
    by (simp only: third)
qed

section \<open>Properties of the key derivation\<close>

subsection \<open>Loops that update an array index by index\<close>

lemma and255: "(x::int) AND 0xFF = x mod 256"
  using take_bit_eq_mask[of 8 x] by (simp add: take_bit_eq_mod mask_eq_exp_minus_1)

lemma fold_update_prefix:
  "m \<le> length xs \<Longrightarrow>
   fold (\<lambda>i k. k[i := g i (k ! i)]) [0..<m] xs = map (\<lambda>i. g i (xs ! i)) [0..<m] @ drop m xs"
proof (induction m)
  case 0 then show ?case by simp
next
  case (Suc m)
  then have m: "m < length xs" by simp
  have "fold (\<lambda>i k. k[i := g i (k ! i)]) [0..<Suc m] xs
        = (map (\<lambda>i. g i (xs ! i)) [0..<m] @ drop m xs)[m := g m ((map (\<lambda>i. g i (xs ! i)) [0..<m] @ drop m xs) ! m)]"
    using Suc by simp
  also have "\<dots> = map (\<lambda>i. g i (xs ! i)) [0..<Suc m] @ drop (Suc m) xs"
    using m by (simp add: nth_append list_update_append Cons_nth_drop_Suc[symmetric])
  finally show ?case .
qed

lemma fold_update_all:
  "length xs = n \<Longrightarrow>
   fold (\<lambda>i k. k[i := g i (k ! i)]) [0..<n] xs = map (\<lambda>i. g i (xs ! i)) [0..<n]"
  using fold_update_prefix[of n xs g] by simp

lemma length_fold_update [simp]:
  "length (fold (\<lambda>i k. k[h i := f i k]) is xs) = length xs"
  by (induction "is" arbitrary: xs) simp_all

lemma map_nth_rotate:
  "length xs = n \<Longrightarrow> map (\<lambda>i. xs ! ((i + r) mod n)) [0..<n] = rotate r xs"
  by (rule nth_equalityI) (simp_all add: nth_rotate add.commute)

lemma deriveRound_spec:
  assumes "length key = 16"
  shows "deriveRound seed r key = spec_round seed r key"
proof -
  let ?g = "\<lambda>i v. ((v + seed ! (i mod 8)) XOR seed ! (8 + (i mod 8))) AND 0xFF"
  have add: "fold (\<lambda>i key. key[i := ?g i (key ! i)]) [0..<16] key = spec_additive seed key"
    using fold_update_all[of key 16 ?g] assms by (simp add: spec_additive_def and255)
  have len: "length (spec_additive seed key) = 16"
    by (simp add: spec_additive_def)
  have rot: "fold (\<lambda>i key. key[i := temp ! ((i + r) mod 16)]) [0..<16] k = rotate r temp"
    if "length k = 16" "length temp = 16" for k temp :: "int list"
    using fold_update_all[of k 16 "\<lambda>i v. temp ! ((i + r) mod 16)"] map_nth_rotate[of temp 16 r] that
    by simp
  show ?thesis
    unfolding deriveRound_def Let_def add spec_round_def
    using rot[OF len len] .
qed

lemma length_spec_round [simp]: "length (spec_round seed r key) = 16"
  by (simp add: spec_round_def spec_additive_def)

lemma upt4: "[0..<4] = [0, 1, 2, 3]"
  by (simp add: upt_rec)

lemma deriveKey_spec:
  "deriveKey seed keyType = spec_deriveKey (keyTypeValue keyType) seed"
proof -
  let ?v = "keyTypeValue keyType"
  have init: "fold (\<lambda>i key. key[i := seed ! i XOR ?v]) [0..<16] (replicate 16 0)
              = spec_initKey ?v seed"
    using fold_update_all[of "replicate 16 (0::int)" 16 "\<lambda>i v. seed ! i XOR ?v"]
    by (simp add: spec_initKey_def)
  have len: "length (spec_initKey ?v seed) = 16"
    by (simp add: spec_initKey_def)
  show ?thesis
    unfolding deriveKey_def Let_def init spec_deriveKey_def upt4
    by (simp add: deriveRound_spec len)
qed

lemma length_spec_deriveKey: "length (spec_deriveKey d seed) = 16"
  by (simp add: spec_deriveKey_def)

lemma generateKeys_reference_vector:
  "generateKeys [1, 2, 3, 4, 5, 6, 7, 8] info =
     Inr \<lparr>encryptionKey = [179, 158, 167, 25, 171, 173, 80, 24, 174, 110, 166, 51, 150, 145, 93, 18],
          decryptionKey = [182, 153, 164, 64, 18, 146, 87, 1, 171, 233, 165, 22, 175, 150, 82, 23],
          mac = [254, 124, 244, 248, 195, 191, 113, 243]\<rparr>"
  by code_simp

lemma js_rem_nonneg: "0 \<le> a \<Longrightarrow> 0 < b \<Longrightarrow> js_rem a b = a mod b"
  by (cases "a = 0") (simp_all add: js_rem_def)

lemma length_sBox: "length sBox = 48"
  by (simp add: sBox_def)

subsection \<open>Determinism\<close>

text \<open>
  C1. \<open>generateKeys\<close> reads nothing but its arguments, and its second argument \<open>info\<close> is
  never used: for every 8-byte identifier there is one key pair that every invocation
  returns, whatever \<open>info\<close> is, and both keys of it have 16 bytes.
\<close>

theorem generateKeys_deterministic:
  assumes "length uid = 8"
  shows "\<exists>kp. (\<forall>info. generateKeys uid info = Inr kp)
              \<and> length (encryptionKey kp) = 16 \<and> length (decryptionKey kp) = 16"
  using assms
  by (simp add: generateKeys_def Let_def deriveKey_spec length_spec_deriveKey)

theorem generateKeys_deterministic_witness:
  "length [1, 2, 3, 4, 5, 6, 7, 8 :: u8] = 8
   \<and> (\<exists>kp. (\<forall>info. generateKeys [1, 2, 3, 4, 5, 6, 7, 8] info = Inr kp)
            \<and> length (encryptionKey kp) = 16 \<and> length (decryptionKey kp) = 16)"
  using generateKeys_deterministic[of "[1, 2, 3, 4, 5, 6, 7, 8]"] by simp

subsection \<open>The substitution step\<close>

text \<open>
  C3, as stated, fails: the table of the source has 48 entries, not 256, and a state byte
  \<open>v\<close> is replaced by \<open>sBox[v % 48]\<close>. The byte 200 is outside the table and is replaced
  by entry 8, exactly as the byte 8 is.
\<close>

theorem sBox_full_table_counterexample:
  "length sBox \<noteq> 256 \<and> \<not> (200 < length sBox)
   \<and> substituteBytes [200, 0, 0, 0, 0, 0, 0, 0] ! 0 = sBox ! 8
   \<and> substituteBytes [200, 0, 0, 0, 0, 0, 0, 0] ! 0 = substituteBytes [8, 0, 0, 0, 0, 0, 0, 0] ! 0"
  by code_simp

text \<open>
  C3, amended. The substitution step of the auth-code computation uses the 48-entry table
  of the source, indexed modulo its length: every state byte \<open>v\<close> in \<open>0..255\<close> is replaced
  by \<open>sBox[v mod 48]\<close>.
\<close>

theorem substituteBytes_modulo_lookup:
  assumes "length state = 8" and "\<forall>v\<in>set state. 0 \<le> v \<and> v < 256" and "i < 8"
  shows "length sBox = 48 \<and> substituteBytes state ! i = sBox ! (nat (state ! i) mod 48)"
proof -
  have v: "0 \<le> state ! i" using assms by simp
  have "substituteBytes state
        = map (\<lambda>i. sBox ! nat (js_rem (state ! i) (int (length sBox)))) [0..<8]"
    unfolding substituteBytes_def
    using fold_update_all[of state 8 "\<lambda>i v. sBox ! nat (js_rem v (int (length sBox)))"] assms(1)
    by simp
  then have "substituteBytes state ! i = sBox ! nat (js_rem (state ! i) 48)"
    using assms(3) by (simp add: length_sBox)
  also have "nat (js_rem (state ! i) 48) = nat (state ! i) mod 48"
    using v by (simp add: js_rem_nonneg nat_mod_distrib)
  finally show ?thesis by (simp add: length_sBox)
qed

theorem substituteBytes_modulo_lookup_witness:
  "length [200, 0, 0, 0, 0, 0, 0, 0 :: int] = 8
   \<and> (0 :: nat) < 8
   \<and> length sBox = 48
   \<and> substituteBytes [200, 0, 0, 0, 0, 0, 0, 0] ! 0
       = sBox ! (nat ([200, 0, 0, 0, 0, 0, 0, 0] ! 0) mod 48)"
  using substituteBytes_modulo_lookup[of "[200, 0, 0, 0, 0, 0, 0, 0]" 0] by simp

subsection \<open>The per-key derivation against the specification\<close>

text \<open>
  C4. For the discriminator 0x01 (key type \<open>'encrypt'\<close>) and 0x02 (key type \<open>'decrypt'\<close>)
  and every 16-byte seed, \<open>_deriveKey\<close> returns what the specification describes:
  \<open>key[i] = seed[i] XOR discriminator\<close>, then four rounds \<open>r = 0..3\<close>, each computing all 16
  additive updates first and then rotating the whole array cyclically by \<open>r\<close> (entry \<open>i\<close>
  of the rotated array is entry \<open>(i + r) mod 16\<close> of the array before).
\<close>

theorem deriveKey_matches_spec:
  assumes "length seed = 16" and "\<forall>b\<in>set seed. 0 \<le> b \<and> b < 256"
  shows "deriveKey seed ''encrypt'' = spec_deriveKey 0x01 seed
       \<and> deriveKey seed ''decrypt'' = spec_deriveKey 0x02 seed"
  by (simp add: deriveKey_spec keyTypeValue_def)

theorem deriveKey_matches_spec_witness:
  "length [0..15] = 16
   \<and> deriveKey [0..15] ''encrypt'' = spec_deriveKey 0x01 [0..15]
   \<and> deriveKey [0..15] ''decrypt'' = spec_deriveKey 0x02 [0..15]"
  using deriveKey_matches_spec[of "[0..15]"] by simp

section \<open>Properties of the block cipher adapter\<close>

subsection \<open>Bytes and words\<close>

lemma ff_mask: "(0xff :: u32) = mask 8"
  by (simp add: mask_eq_exp_minus_1)

lemma bit_byteOfWord:
  assumes "j < 4"
  shows "bit (byteOfWord w j) n \<longleftrightarrow> n < 8 \<and> bit w (n + (24 - j * 8))"
proof -
  from assms have "n < 8 \<Longrightarrow> \<not> 32 - (24 - j * 8) \<le> n" by simp
  then show ?thesis
    unfolding byteOfWord_def ff_mask by (auto simp add: bit_simps add.commute)
qed

lemma bit_u8_bound: "bit (a :: u8) n \<Longrightarrow> n < 8"
  by (drule bit_imp_le_length) simp

lemma byteOfWord_packWord:
  fixes a b c d :: u8
  shows "byteOfWord (packWord (ucast a) (ucast b) (ucast c) (ucast d)) 0 = a"
    and "byteOfWord (packWord (ucast a) (ucast b) (ucast c) (ucast d)) (Suc 0) = b"
    and "byteOfWord (packWord (ucast a) (ucast b) (ucast c) (ucast d)) 2 = c"
    and "byteOfWord (packWord (ucast a) (ucast b) (ucast c) (ucast d)) 3 = d"
  by (rule bit_word_eqI; auto simp add: bit_byteOfWord packWord_def bit_simps dest: bit_u8_bound)+

lemma packWord_byteOfWord:
  "packWord (ucast (byteOfWord w 0)) (ucast (byteOfWord w (Suc 0)))
            (ucast (byteOfWord w 2)) (ucast (byteOfWord w 3)) = w"
proof (rule bit_word_eqI)
  fix n assume n: "n < LENGTH(32)"
  consider "n < 8" | "8 \<le> n" "n < 16" | "16 \<le> n" "n < 24" | "24 \<le> n" "n < 32"
    using n by fastforce
  then show "bit (packWord (ucast (byteOfWord w 0)) (ucast (byteOfWord w (Suc 0)))
                   (ucast (byteOfWord w 2)) (ucast (byteOfWord w 3))) n = bit w n"
    by cases (auto simp add: bit_byteOfWord packWord_def bit_simps)
qed

lemma concat_full_chunks:
  "concat (map (\<lambda>q. map (f q) [0..<4]) [0..<k]) = map (\<lambda>n. f (n div 4) (n mod 4)) [0..<4 * k]"
proof (induction k)
  case 0 then show ?case by simp
next
  case (Suc k)
  have "map (\<lambda>n. f (n div 4) (n mod 4)) [4 * k..<4 * k + 4] = map (f k) [0..<4]"
    by (rule nth_equalityI) simp_all
  moreover have "[0..<4 * Suc k] = [0..<4 * k] @ [4 * k..<4 * k + 4]"
    using upt_add_eq_append[of 0 "4 * k" 4] by (simp add: add.commute)
  ultimately show ?case using Suc by simp
qed

lemma concat_chunks:
  "concat (map (\<lambda>q. map (f q) [0..<min 4 (s - 4 * q)]) [0..<(s + 3) div 4])
   = map (\<lambda>n. f (n div 4) (n mod 4)) [0..<s]"
proof -
  define k where "k = s div 4"
  define r where "r = s mod 4"
  have s: "s = 4 * k + r" and r: "r < 4" by (simp_all add: k_def r_def)
  have full: "map (\<lambda>q. map (f q) [0..<min 4 (s - 4 * q)]) [0..<k]
              = map (\<lambda>q. map (f q) [0..<4]) [0..<k]"
    by (rule map_cong) (auto simp add: s min_def)
  show ?thesis
  proof (cases "r = 0")
    case True
    then have k0: "(s + 3) div 4 = k" and s4: "4 * k = s" using s by simp_all
    show ?thesis unfolding k0 full concat_full_chunks s4 ..
  next
    case False
    then have k1: "(s + 3) div 4 = Suc k" using s r by simp
    have last: "min 4 (s - 4 * k) = r" using s r by simp
    have tail: "map (\<lambda>n. f (n div 4) (n mod 4)) [4 * k..<4 * k + r] = map (f k) [0..<r]"
      using r by (intro nth_equalityI) simp_all
    have split: "[0..<s] = [0..<4 * k] @ [4 * k..<4 * k + r]"
      using upt_add_eq_append[of 0 "4 * k" r] s by simp
    let ?g = "\<lambda>q. map (f q) [0..<min 4 (s - 4 * q)]"
    have "concat (map ?g [0..<Suc k]) = concat (map ?g [0..<k]) @ ?g k"
      by simp
    also have "\<dots> = map (\<lambda>n. f (n div 4) (n mod 4)) [0..<4 * k] @ map (f k) [0..<r]"
      unfolding full concat_full_chunks last ..
    also have "\<dots> = map (\<lambda>n. f (n div 4) (n mod 4)) [0..<s]"
      unfolding split map_append tail ..
    finally show ?thesis
      unfolding k1 .
  qed
qed

lemma wordArrayToUint8Array_flat:
  "wordArrayToUint8Array wa
   = map (\<lambda>n. byteOfWord (wordOr0 (words wa) (n div 4)) (n mod 4)) [0..<sigBytes wa]"
  unfolding wordArrayToUint8Array_def Let_def
  using concat_chunks[of "\<lambda>q. byteOfWord (wordOr0 (words wa) q)" "sigBytes wa"]
  by simp

lemma length_wordArrayToUint8Array [simp]:
  "length (wordArrayToUint8Array wa) = sigBytes wa"
  by (simp add: wordArrayToUint8Array_flat)

lemma byteOr0_ucast:
  "byteOr0 u8arr i = ucast (if i < length u8arr then u8arr ! i else 0)"
  by (simp add: byteOr0_def)

lemma words_uint8ArrayToWordArray:
  "words (uint8ArrayToWordArray u8arr)
   = map (\<lambda>q. packWord (byteOr0 u8arr (4 * q)) (byteOr0 u8arr (4 * q + 1))
                  (byteOr0 u8arr (4 * q + 2)) (byteOr0 u8arr (4 * q + 3)))
       [0..<(length u8arr + 3) div 4]"
  and sigBytes_uint8ArrayToWordArray: "sigBytes (uint8ArrayToWordArray u8arr) = length u8arr"
  by (simp_all add: uint8ArrayToWordArray_def Let_def)

lemma mod4_cases:
  obtains "(n::nat) mod 4 = 0" | "n mod 4 = Suc 0" | "n mod 4 = 2" | "n mod 4 = 3"
proof -
  have "n mod 4 < 4" by simp
  then have "n mod 4 = 0 \<or> n mod 4 = Suc 0 \<or> n mod 4 = 2 \<or> n mod 4 = 3" by linarith
  then show thesis by (elim disjE) (erule that)+
qed

lemma bytes_of_words_of_bytes:
  "wordArrayToUint8Array (uint8ArrayToWordArray p) = p"
proof (rule nth_equalityI)
  show "length (wordArrayToUint8Array (uint8ArrayToWordArray p)) = length p"
    by (simp add: sigBytes_uint8ArrayToWordArray)
next
  fix n assume "n < length (wordArrayToUint8Array (uint8ArrayToWordArray p))"
  then have n: "n < length p" by (simp add: sigBytes_uint8ArrayToWordArray)
  then have q: "n div 4 < (length p + 3) div 4" by simp
  have n4: "4 * (n div 4) + n mod 4 = n" by simp
  have "byteOfWord (packWord (byteOr0 p (4 * (n div 4))) (byteOr0 p (4 * (n div 4) + 1))
            (byteOr0 p (4 * (n div 4) + 2)) (byteOr0 p (4 * (n div 4) + 3))) (n mod 4)
        = p ! n"
  proof (cases n rule: mod4_cases)
    case 1 with n n4 show ?thesis
      by (simp add: byteOr0_ucast byteOfWord_packWord del: mult_div_mod_eq div_mult_mod_eq)
  next
    case 2 with n n4 show ?thesis
      by (simp add: byteOr0_ucast byteOfWord_packWord del: mult_div_mod_eq div_mult_mod_eq)
  next
    case 3 with n n4 show ?thesis
      by (simp add: byteOr0_ucast byteOfWord_packWord del: mult_div_mod_eq div_mult_mod_eq)
  next
    case 4 with n n4 show ?thesis
      by (simp add: byteOr0_ucast byteOfWord_packWord del: mult_div_mod_eq div_mult_mod_eq)
  qed
  then show "wordArrayToUint8Array (uint8ArrayToWordArray p) ! n = p ! n"
    using n q
    by (simp add: wordArrayToUint8Array_flat sigBytes_uint8ArrayToWordArray
         words_uint8ArrayToWordArray wordOr0_def)
qed

lemma words_of_bytes_of_words:
  assumes "sigBytes wa = 4 * length (words wa)"
  shows "uint8ArrayToWordArray (wordArrayToUint8Array wa) = wa"
proof -
  let ?bs = "wordArrayToUint8Array wa"
  have byte: "byteOr0 ?bs (4 * q + j) = ucast (byteOfWord (words wa ! q) j)"
    if "q < length (words wa)" "j < 4" for q j
  proof -
    have "4 * q + j < sigBytes wa" using that assms by simp
    moreover have "(4 * q + j) div 4 = q" "(4 * q + j) mod 4 = j" using that by simp_all
    ultimately show ?thesis
      using that by (simp add: byteOr0_def wordArrayToUint8Array_flat wordOr0_def)
  qed
  have "words (uint8ArrayToWordArray ?bs) = words wa"
  proof (rule nth_equalityI)
    show "length (words (uint8ArrayToWordArray ?bs)) = length (words wa)"
      using assms by (simp add: words_uint8ArrayToWordArray)
  next
    fix q assume "q < length (words (uint8ArrayToWordArray ?bs))"
    then have q: "q < length (words wa)"
      using assms by (simp add: words_uint8ArrayToWordArray)
    then have q': "q < (sigBytes wa + 3) div 4" using assms by simp
    show "words (uint8ArrayToWordArray ?bs) ! q = words wa ! q"
      using byte[OF q, of 0] byte[OF q, of 1] byte[OF q, of 2] byte[OF q, of 3] q'
        packWord_byteOfWord[of "words wa ! q"]
      by (simp add: words_uint8ArrayToWordArray)
  qed
  moreover have "sigBytes (uint8ArrayToWordArray ?bs) = sigBytes wa"
    by (simp add: sigBytes_uint8ArrayToWordArray)
  ultimately show ?thesis
    by (simp add: WordArray.equality)
qed

lemma xorBlock_cancel:
  "length b = length p \<Longrightarrow> xorBlock (xorBlock b p) p = b"
  unfolding xorBlock_def
  by (rule nth_equalityI) (simp_all add: xor.assoc)

lemma length_xorBlock [simp]: "length (xorBlock b p) = min (length b) (length p)"
  by (simp add: xorBlock_def)

lemma cbc_blocks_roundtrip:
  assumes cipher: "\<And>b. length b = 4 \<Longrightarrow> length (enc b) = 4 \<and> dec (enc b) = b"
  shows "length prev = 4 \<Longrightarrow> \<forall>b\<in>set bs. length b = 4 \<Longrightarrow>
         cbcDecryptBlocks dec prev (cbcEncryptBlocks enc prev bs) = bs
         \<and> (\<forall>c\<in>set (cbcEncryptBlocks enc prev bs). length c = 4)
         \<and> length (cbcEncryptBlocks enc prev bs) = length bs"
proof (induction bs arbitrary: prev)
  case Nil
  then show ?case by simp
next
  case (Cons b bs)
  then have b: "length b = 4" and bs: "\<forall>b\<in>set bs. length b = 4" by simp_all
  have x: "length (xorBlock b prev) = 4" using b Cons.prems(1) by simp
  note e = cipher[OF x]
  have "xorBlock (dec (enc (xorBlock b prev))) prev = b"
    using e b Cons.prems(1) by (simp add: xorBlock_cancel)
  moreover note Cons.IH[of "enc (xorBlock b prev)"] 
  ultimately show ?case using e bs by (simp add: Let_def)
qed

lemma concat_chopBlocks:
  "length ws = 4 * n \<Longrightarrow> concat (chopBlocks n ws) = ws \<and> (\<forall>b\<in>set (chopBlocks n ws). length b = 4)"
proof (induction n arbitrary: ws)
  case 0 then show ?case by simp
next
  case (Suc n)
  then have "length (drop 4 ws) = 4 * n" by simp
  from Suc.IH[OF this] Suc.prems show ?case by simp
qed

lemma chopBlocks_concat:
  "\<forall>b\<in>set bs. length b = 4 \<Longrightarrow> chopBlocks (length bs) (concat bs) = bs"
  by (induction bs) simp_all

lemma length_concat_blocks:
  "\<forall>b\<in>set bs. length b = 4 \<Longrightarrow> length (concat bs) = 4 * length bs"
  by (induction bs) simp_all

lemma processBlocks_aligned:
  assumes "sigBytes wa = 16 * m" and "length (words wa) = 4 * m"
  shows "processBlocks f wa
         = \<lparr>words = concat (f (chopBlocks m (words wa))), sigBytes = 16 * m\<rparr>"
proof -
  have "(sigBytes wa + 15) div 16 = m" using assms(1) by simp
  then show ?thesis
    using assms by (simp add: processBlocks_def Let_def)
qed

lemma sigBytes_processBlocks [simp]:
  "sigBytes (processBlocks f wa) = sigBytes wa"
proof -
  have "sigBytes wa \<le> (sigBytes wa + 15) div 16 * 4 * 4" by simp
  then show ?thesis by (simp add: processBlocks_def Let_def)
qed

lemma xorCipher_inverse:
  "length (xorCipher kw b) = length b \<and> xorCipher kw (xorCipher kw b) = b"
  by (simp add: xorCipher_def o_def xor.assoc)

subsection \<open>Round trip\<close>

text \<open>
  C2. For every plaintext whose length is a multiple of 16, every 16-byte key and every
  block cipher whose decryption undoes its encryption on four-word blocks under that key,
  \<open>encrypt\<close> returns a ciphertext of the same length and \<open>decrypt\<close> of that ciphertext under
  the same key returns the plaintext.
\<close>

theorem decrypt_encrypt_roundtrip:
  assumes aligned: "length p mod 16 = 0"
    and key: "length k = 16"
    and cipher: "\<forall>b. length b = 4 \<longrightarrow>
                   length (E (words (uint8ArrayToWordArray k)) b) = 4
                   \<and> D (words (uint8ArrayToWordArray k)) (E (words (uint8ArrayToWordArray k)) b) = b"
  shows "\<exists>c. encrypt E p k = Inr c \<and> length c = length p \<and> decrypt D c k = Inr p"
proof -
  define m where "m = length p div 16"
  define kw where "kw = words (uint8ArrayToWordArray k)"
  define ws where "ws = words (uint8ArrayToWordArray p)"
  define cs where "cs = cbcEncryptBlocks (E kw) zeroIV (chopBlocks m ws)"
  define ewa where "ewa = \<lparr>words = concat cs, sigBytes = 16 * m\<rparr>"
  have len: "length p = 16 * m" using aligned by (auto simp add: m_def)
  have sig: "sigBytes (uint8ArrayToWordArray p) = 16 * m"
    by (simp add: sigBytes_uint8ArrayToWordArray len)
  have lws: "length ws = 4 * m"
    by (simp add: ws_def words_uint8ArrayToWordArray len)
  note chop = concat_chopBlocks[OF lws]
  have ciph: "length b = 4 \<Longrightarrow> length (E kw b) = 4 \<and> D kw (E kw b) = b" for b
    using cipher by (simp add: kw_def)
  have iv: "length zeroIV = 4" by (simp add: zeroIV_def)
  have rt: "cbcDecryptBlocks (D kw) zeroIV cs = chopBlocks m ws"
    and cs4: "\<forall>c\<in>set cs. length c = 4"
    and lcs: "length cs = length (chopBlocks m ws)"
    using cbc_blocks_roundtrip[of "E kw" "D kw" zeroIV "chopBlocks m ws", OF ciph iv] chop
    by (simp_all add: cs_def)
  have lchop: "length (chopBlocks n xs) = n" for n xs
    by (induction n arbitrary: xs) simp_all
  have lcs': "length cs = m" using lcs lchop by simp
  have enc: "cbcEncrypt E (uint8ArrayToWordArray p) (uint8ArrayToWordArray k) = ewa"
    unfolding cbcEncrypt_def
    using processBlocks_aligned[OF sig, of "cbcEncryptBlocks (E kw) zeroIV"] lws
    by (simp add: ewa_def cs_def ws_def kw_def)
  have ewa_al: "sigBytes ewa = 4 * length (words ewa)"
    using length_concat_blocks[OF cs4] lcs' by (simp add: ewa_def)
  have wb: "uint8ArrayToWordArray (wordArrayToUint8Array ewa) = ewa"
    by (rule words_of_bytes_of_words[OF ewa_al])
  have d1: "cbcDecrypt D ewa (uint8ArrayToWordArray k)
        = \<lparr>words = concat (cbcDecryptBlocks (D kw) zeroIV (chopBlocks m (words ewa))),
           sigBytes = 16 * m\<rparr>"
    unfolding cbcDecrypt_def kw_def[symmetric]
    using length_concat_blocks[OF cs4] lcs'
    by (intro processBlocks_aligned) (simp_all add: ewa_def)
  have d2: "chopBlocks m (words ewa) = cs"
    using chopBlocks_concat[OF cs4] lcs' by (simp add: ewa_def)
  have d3: "concat (cbcDecryptBlocks (D kw) zeroIV cs) = ws"
    using rt chop by simp
  have dec: "cbcDecrypt D ewa (uint8ArrayToWordArray k) = uint8ArrayToWordArray p"
    unfolding d1 d2 d3 using sig by (simp add: ws_def WordArray.equality)
  have "encrypt E p k = Inr (wordArrayToUint8Array ewa)"
    by (simp add: encrypt_def Let_def enc)
  moreover have "length (wordArrayToUint8Array ewa) = length p"
    by (simp add: ewa_def len)
  moreover have "decrypt D (wordArrayToUint8Array ewa) k = Inr p"
    by (simp add: decrypt_def Let_def wb dec bytes_of_words_of_bytes)
  ultimately show ?thesis by blast
qed

theorem decrypt_encrypt_roundtrip_witness:
  "length [1,2,3,4,5,6,7,8,9,10,11,12,13,14,15,16 :: u8] mod 16 = 0
   \<and> length [16,15,14,13,12,11,10,9,8,7,6,5,4,3,2,1 :: u8] = 16
   \<and> (\<exists>c. encrypt xorCipher [1,2,3,4,5,6,7,8,9,10,11,12,13,14,15,16]
                [16,15,14,13,12,11,10,9,8,7,6,5,4,3,2,1] = Inr c
          \<and> length c = length [1,2,3,4,5,6,7,8,9,10,11,12,13,14,15,16 :: u8]
          \<and> decrypt xorCipher c [16,15,14,13,12,11,10,9,8,7,6,5,4,3,2,1]
              = Inr [1,2,3,4,5,6,7,8,9,10,11,12,13,14,15,16])"
proof -
  let ?p = "[1,2,3,4,5,6,7,8,9,10,11,12,13,14,15,16 :: u8]"
  let ?k = "[16,15,14,13,12,11,10,9,8,7,6,5,4,3,2,1 :: u8]"
  have h1: "length ?p mod 16 = 0" by simp
  have h2: "length ?k = 16" by simp
  have h3: "\<forall>b. length b = 4 \<longrightarrow>
         length (xorCipher (words (uint8ArrayToWordArray ?k)) b) = 4
         \<and> xorCipher (words (uint8ArrayToWordArray ?k))
             (xorCipher (words (uint8ArrayToWordArray ?k)) b) = b"
    by (simp add: xorCipher_inverse)
  from decrypt_encrypt_roundtrip[where p = ?p and k = ?k and E = xorCipher and D = xorCipher,
         OF h1 h2 h3] h1 h2
  show ?thesis by blast
qed

subsection \<open>Ciphertexts of any length\<close>

text \<open>
  C5, as stated, fails: \<open>decrypt\<close> has no length check. A ciphertext of 5 bytes is decrypted
  to 5 bytes; nothing is raised.
\<close>

theorem decrypt_unaligned_counterexample:
  "length [1, 2, 3, 4, 5 :: u8] mod 16 \<noteq> 0
   \<and> decrypt xorCipher [1, 2, 3, 4, 5] [1,2,3,4,5,6,7,8,9,10,11,12,13,14,15,16]
       = Inr [0, 0, 0, 0, 4]
   \<and> decrypt xorCipher [1, 2, 3, 4, 5] [1,2,3,4,5,6,7,8,9,10,11,12,13,14,15,16]
       \<noteq> Inl MalformedCiphertext"
  by code_simp

text \<open>
  C5, amended. \<open>decrypt\<close> never fails: for every ciphertext, of any length, every key and
  every block cipher it returns a buffer as long as the ciphertext.
\<close>

theorem decrypt_never_fails:
  "\<exists>out. decrypt D data key = Inr out \<and> length out = length data"
  by (simp add: decrypt_def Let_def cbcDecrypt_def sigBytes_uint8ArrayToWordArray)

section \<open>Properties of the sensor data decoder\<close>

subsection \<open>One slot\<close>

lemma slot_view:
  assumes "off + 6 \<le> length buf"
  shows "newDataView buf off 6 = Inr (take 6 (drop off buf))"
    and "getUint32 (take 6 (drop off buf)) 0 = Inr (le32 buf off)"
    and "getUint16 (take 6 (drop off buf)) 4 = Inr (le16 buf (off + 4))"
  using assms
  by (simp_all add: newDataView_def getUint32_def getUint16_def le32_def le16_def add.commute)

lemma no_later_slot_fits:
  assumes "\<not> 10 + 6 * i + 6 \<le> (len :: nat)"
  shows "filter (\<lambda>off. off + 6 \<le> len) (map (\<lambda>j. 10 + 6 * j) [i..<m]) = []"
  using assms by (auto simp add: filter_empty_conv)

lemma parseLoop_readings:
  "parseLoop data n i acc =
     Inr (acc @ map (slotReading data)
                  (filter (\<lambda>off. off + 6 \<le> length data) (map (\<lambda>j. 10 + 6 * j) [i..<nat n])))"
proof (induction data n i acc rule: parseLoop.induct)
  case (1 data n i acc)
  show ?case
  proof (cases "int i < n")
    case False
    then show ?thesis by (subst parseLoop.simps) simp
  next
    case more: True
    then have upt: "[i..<nat n] = i # [Suc i..<nat n]"
      by (simp add: upt_conv_Cons)
    show ?thesis
    proof (cases "10 + i * 6 + 6 \<le> length data")
      case False
      then have "\<not> 10 + 6 * i + 6 \<le> length data" by (simp add: mult.commute)
      from no_later_slot_fits[OF this, of "nat n"] False more show ?thesis
        by (subst parseLoop.simps) (simp add: Let_def)
    next
      case fits: True
      note v = slot_view[OF fits]
      have step: "parseLoop data n i acc =
                  parseLoop data n (i + 1) (acc @ [slotReading data (10 + i * 6)])"
        using more fits
        by (subst parseLoop.simps) (simp add: Let_def v slotReading_def)
      have ih: "parseLoop data n (i + 1) (acc @ [slotReading data (10 + i * 6)]) =
                Inr ((acc @ [slotReading data (10 + i * 6)]) @
                     map (slotReading data)
                       (filter (\<lambda>off. off + 6 \<le> length data)
                          (map (\<lambda>j. 10 + 6 * j) [i + 1..<nat n])))"
        using "1.IH"[OF more refl _ v(1) v(2) v(3)] fits
        by (simp add: slotReading_def)
      show ?thesis
        unfolding step ih upt using fits by (simp add: mult.commute)
    qed
  qed
qed

subsection \<open>Radio payload\<close>

text \<open>
  C8. Decoding a radio payload never throws. A buffer shorter than 16 bytes gives the empty
  list; a buffer of at least 16 bytes gives, in order, the readings of those of the
  declared slots (their number is byte 2, the first is at offset 10) that fit entirely
  within the buffer.
\<close>

theorem parseGlucoseData_fails_soft:
  "parseGlucoseData data = Inr (spec_radioReadings data)"
proof (cases "length data < 16")
  case True
  then show ?thesis by (simp add: parseGlucoseData_def spec_radioReadings_def)
next
  case False
  then have "data \<noteq> []" by auto
  with False show ?thesis
    by (simp add: parseGlucoseData_def spec_radioReadings_def newDataView_def getUint8_def
          parseLoop_readings)
qed

lemma parse_example_9_bytes: "parseGlucoseData [1, 0, 3, 0, 0, 0, 0, 0, 0] = Inr []"
  by (simp add: parseGlucoseData_def)

subsection \<open>Tag memory\<close>

lemma uint_u8_bound: "0 \<le> uint (b :: u8) \<and> uint b \<le> 255"
  using uint_lt2p[of b] by simp

lemma le32_bound: "0 \<le> le32 buf off \<and> le32 buf off \<le> 4294967295"
  using uint_u8_bound[of "buf ! off"] uint_u8_bound[of "buf ! (off + 1)"]
    uint_u8_bound[of "buf ! (off + 2)"] uint_u8_bound[of "buf ! (off + 3)"]
  by (simp add: le32_def)

lemma historyLoop_readings:
  assumes "124 + 6 * n \<le> length buffer"
  shows "historyLoop buffer n i acc =
     Inr (acc @ map (slotReading buffer)
                  (filter (slotKept buffer) (map (\<lambda>j. 124 + 6 * j) [i..<n])))"
  using assms
proof (induction buffer n i acc rule: historyLoop.induct)
  case (1 buffer n i acc)
  show ?case
  proof (cases "i < n")
    case False
    then show ?thesis by (subst historyLoop.simps) simp
  next
    case more: True
    then have upt: "[i..<n] = i # [Suc i..<n]"
      by (simp add: upt_conv_Cons)
    from more "1.prems" have fits: "124 + i * 6 + 6 \<le> length buffer" by simp
    note v = slot_view[OF fits]
    let ?off = "124 + i * 6"
    have off: "124 + 6 * i = ?off" by simp
    consider (nots) "le32 buffer ?off = 0 \<or> le32 buffer ?off > 4294967295"
      | (noraw) "\<not> (le32 buffer ?off = 0 \<or> le32 buffer ?off > 4294967295)" "le16 buffer (?off + 4) = 0"
      | (ok) "\<not> (le32 buffer ?off = 0 \<or> le32 buffer ?off > 4294967295)" "le16 buffer (?off + 4) \<noteq> 0"
      by blast
    then show ?thesis
    proof cases
      case nots
      with le32_bound[of buffer ?off] have "le32 buffer ?off = 0" by simp
      then have skip: "\<not> slotKept buffer ?off" by (simp add: slotKept_def)
      have "historyLoop buffer n i acc = historyLoop buffer n (i + 1) acc"
        using more fits nots by (subst historyLoop.simps) (simp add: Let_def v)
      also note "1.IH"(1)[OF more refl _ v(1) v(2) nots "1.prems"]
      finally show ?thesis using fits skip unfolding upt by (simp add: off)
    next
      case noraw
      then have skip: "\<not> slotKept buffer ?off" by (auto simp add: slotKept_def)
      have "historyLoop buffer n i acc = historyLoop buffer n (i + 1) acc"
        using more fits noraw by (subst historyLoop.simps) (simp add: Let_def v)
      also note "1.IH"(2)[OF more refl _ v(1) v(2) noraw(1) v(3) noraw(2) "1.prems"]
      finally show ?thesis using fits skip unfolding upt by (simp add: off)
    next
      case ok
      then have keep: "slotKept buffer ?off" by (auto simp add: slotKept_def)
      have "historyLoop buffer n i acc =
            historyLoop buffer n (i + 1) (acc @ [slotReading buffer ?off])"
        using more fits ok by (subst historyLoop.simps) (simp add: Let_def v slotReading_def)
      also have "\<dots> = Inr ((acc @ [slotReading buffer ?off]) @ map (slotReading buffer)
                  (filter (slotKept buffer) (map (\<lambda>j. 124 + 6 * j) [i + 1..<n])))"
        using "1.IH"(3)[OF more refl _ v(1) v(2) ok(1) v(3) ok(2) "1.prems"] fits
        by (simp add: slotReading_def)
      finally show ?thesis using keep unfolding upt by (simp add: off)
    qed
  qed
qed

lemma extractHistoricalReadings_kept:
  "316 \<le> length buffer \<Longrightarrow> extractHistoricalReadings buffer = Inr (keptReadings buffer)"
  by (simp add: extractHistoricalReadings_def historyLoop_readings keptReadings_def)

lemma processSensorData_readings:
  assumes "assembleBuffer blocks = Inr buffer" and "321 \<le> length buffer"
  shows "\<exists>info. processSensorData blocks = Inr info
               \<and> historicalReadings info = keptReadings buffer"
proof -
  have "316 \<le> length buffer" using assms(2) by simp
  note h = extractHistoricalReadings_kept[OF this]
  show ?thesis
    using assms
    by (simp add: processSensorData_def h extractSensorStartTime_def extractCurrentGlucose_def
          extractSensorAge_def newDataView_def getUint32_def getUint16_def Let_def)
qed

lemma processSensorData_short_buffer:
  assumes "assembleBuffer blocks = Inr buffer" and "length buffer < 321"
  shows "processSensorData blocks = Inl RangeError"
  using assms
  by (simp add: processSensorData_def extractSensorStartTime_def newDataView_def Let_def)

lemma processSensorData_history:
  "(assembleBuffer blocks = Inr buffer \<and> 321 \<le> length buffer \<longrightarrow>
      (\<exists>info. processSensorData blocks = Inr info
             \<and> historicalReadings info = keptReadings buffer))
   \<and> (processSensorData blocks = Inr result \<longrightarrow>
      (\<exists>assembled. assembleBuffer blocks = Inr assembled
             \<and> historicalReadings result = keptReadings assembled))"
proof (intro conjI impI)
  assume "assembleBuffer blocks = Inr buffer \<and> 321 \<le> length buffer"
  then show "\<exists>info. processSensorData blocks = Inr info
                  \<and> historicalReadings info = keptReadings buffer"
    using processSensorData_readings by blast
next
  assume res: "processSensorData blocks = Inr result"
  then obtain assembled where a: "assembleBuffer blocks = Inr assembled"
    by (cases "assembleBuffer blocks") (simp_all add: processSensorData_def)
  have "321 \<le> length assembled"
  proof (rule ccontr)
    assume "\<not> 321 \<le> length assembled"
    then have "processSensorData blocks = Inl RangeError"
      using processSensorData_short_buffer[OF a] by simp
    with res show False by simp
  qed
  from processSensorData_readings[OF a this] res
  have "historicalReadings result = keptReadings assembled" by auto
  with a show "\<exists>assembled. assembleBuffer blocks = Inr assembled
                  \<and> historicalReadings result = keptReadings assembled"
    by blast
qed

lemma assemble_erased: "assembleBuffer erasedBlocks = Inr erasedBuffer"
  unfolding erasedBlocks_def erasedBuffer_def
  by (simp add: assembleBuffer_def typedArraySet_def)

lemma length_erased: "321 \<le> length erasedBuffer"
  unfolding erasedBuffer_def by simp

lemma kept_erased:
  "keptReadings erasedBuffer
   = [\<lparr>timestamp = 4294967295000, glucoseValue = 13107 / 2, unit = ''mg/dL''\<rparr>]"
  unfolding erasedBuffer_def
  by code_simp

text \<open>
  C6. The claim holds for the 32 slots, their order, the decoding of a slot and the
  skipping of a slot with timestamp 0 or raw glucose 0 (\<open>processSensorData_history\<close>), and
  nothing is raised. It does not hold for a slot with an out-of-range timestamp: the loop
  means to skip one (its comment names "0 or very large values") but tests
  \<open>timestamp > 4294967295\<close> on a four-byte value, which never holds (\<open>le32_bound\<close>). For
  the scan whose first history slot is \<open>FF FF FF FF FF FF\<close>, tag-memory decoding succeeds and
  returns that slot as a reading: timestamp 4294967295 seconds (held in milliseconds) and
  value 6553.5.
\<close>

theorem erased_slot_is_returned:
  "assembleBuffer erasedBlocks = Inr erasedBuffer
   \<and> le32 erasedBuffer 124 = 4294967295
   \<and> extractHistoricalReadings erasedBuffer
       = Inr [\<lparr>timestamp = 4294967295000, glucoseValue = 13107 / 2, unit = ''mg/dL''\<rparr>]
   \<and> (\<exists>info. processSensorData erasedBlocks = Inr info
            \<and> historicalReadings info
                = [\<lparr>timestamp = 4294967295000, glucoseValue = 13107 / 2, unit = ''mg/dL''\<rparr>])"
proof -
  have ts: "le32 erasedBuffer 124 = 4294967295"
    unfolding erasedBuffer_def by (simp add: le32_def)
  have "316 \<le> length erasedBuffer"
    using length_erased by simp
  then have h: "extractHistoricalReadings erasedBuffer
       = Inr [\<lparr>timestamp = 4294967295000, glucoseValue = 13107 / 2, unit = ''mg/dL''\<rparr>]"
    by (simp add: extractHistoricalReadings_kept kept_erased)
  from processSensorData_readings[OF assemble_erased length_erased]
  have "\<exists>info. processSensorData erasedBlocks = Inr info
            \<and> historicalReadings info
                = [\<lparr>timestamp = 4294967295000, glucoseValue = 13107 / 2, unit = ''mg/dL''\<rparr>]"
    by (simp add: kept_erased)
  with assemble_erased ts h show ?thesis by simp
qed

section \<open>Properties of the reading aggregator\<close>

subsection \<open>The insertion-ordered map\<close>

lemma mapSet_keys:
  "fst ` set (mapSet m k v) = insert k (fst ` set m)"
  by (induction m k v rule: mapSet.induct) (auto split: if_splits)

lemma mapSet_distinct:
  "distinct (map fst m) \<Longrightarrow> distinct (map fst (mapSet m k v))"
  by (induction m k v rule: mapSet.induct) (auto simp add: mapSet_keys)

lemma map_of_mapSet:
  "map_of (mapSet m k v) = (map_of m)(k \<mapsto> v)"
  by (induction m k v rule: mapSet.induct) (auto simp add: fun_eq_iff)

lemma mapSet_keyed:
  "\<forall>(k', v')\<in>set m. k' = f v' \<Longrightarrow> \<forall>(k', v')\<in>set (mapSet m (f v) v). k' = f v'"
  by (induction m "f v" v rule: mapSet.induct) (auto split: if_splits)

lemma fold_mapSet_distinct:
  "distinct (map fst m) \<Longrightarrow> distinct (map fst (fold (\<lambda>r m. mapSet m (f r) r) rs m))"
  by (induction rs arbitrary: m) (simp_all add: mapSet_distinct)

lemma fold_mapSet_keyed:
  "\<forall>(k', v')\<in>set m. k' = f v' \<Longrightarrow>
   \<forall>(k', v')\<in>set (fold (\<lambda>r m. mapSet m (f r) r) rs m). k' = f v'"
proof (induction rs arbitrary: m)
  case Nil
  then show ?case by simp
next
  case (Cons r rs)
  from mapSet_keyed[OF Cons.prems, of r]
  have "\<forall>(k', v')\<in>set (fold (\<lambda>r m. mapSet m (f r) r) rs (mapSet m (f r) r)). k' = f v'"
    by (rule Cons.IH)
  then show ?case by simp
qed

lemma fold_mapSet_keys:
  "fst ` set (fold (\<lambda>r m. mapSet m (f r) r) rs m) = fst ` set m \<union> f ` set rs"
  by (induction rs arbitrary: m) (auto simp add: mapSet_keys)

lemma map_of_fold_mapSet:
  "map_of (fold (\<lambda>r m. mapSet m (f r) r) rs m) k =
     (if k \<in> f ` set rs then Some (last (filter (\<lambda>r. f r = k) rs)) else map_of m k)"
proof (induction rs arbitrary: m)
  case Nil
  then show ?case by simp
next
  case (Cons r rs)
  note ih = Cons.IH[of "mapSet m (f r) r"]
  show ?case
  proof (cases "k \<in> f ` set rs")
    case True
    then have "filter (\<lambda>r. f r = k) rs \<noteq> []"
      by (auto simp add: filter_empty_conv)
    with True ih show ?thesis by simp
  next
    case False
    then have none: "filter (\<lambda>r. f r = k) rs = []"
      by (auto simp add: filter_empty_conv)
    show ?thesis
    proof (cases "f r = k")
      case True
      with False none ih show ?thesis by (simp add: map_of_mapSet)
    next
      case False
      with \<open>k \<notin> f ` set rs\<close> none ih show ?thesis by (auto simp add: map_of_mapSet)
    qed
  qed
qed

lemma removeDuplicateReadings_distinct:
  "distinct (map r_timestamp (removeDuplicateReadings rs))"
proof -
  let ?m = "fold (\<lambda>r m. mapSet m (r_timestamp r) r) rs []"
  have keyed: "\<forall>(k, v)\<in>set ?m. k = r_timestamp v"
    by (rule fold_mapSet_keyed) simp
  then have "map r_timestamp (removeDuplicateReadings rs) = map fst ?m"
    unfolding removeDuplicateReadings_def by (auto simp add: case_prod_unfold)
  moreover have "distinct (map fst ?m)"
    by (rule fold_mapSet_distinct) simp
  ultimately show ?thesis by (simp only:)
qed

lemma removeDuplicateReadings_last_seen:
  assumes "r \<in> set (removeDuplicateReadings rs)"
  shows "r = last (filter (\<lambda>x. r_timestamp x = r_timestamp r) rs)"
proof -
  let ?m = "fold (\<lambda>r m. mapSet m (r_timestamp r) r) rs []"
  from assms obtain k where kr: "(k, r) \<in> set ?m"
    by (auto simp add: removeDuplicateReadings_def)
  have "\<forall>(k, v)\<in>set ?m. k = r_timestamp v"
    by (rule fold_mapSet_keyed) simp
  with kr have k: "k = r_timestamp r" by auto
  have "distinct (map fst ?m)"
    by (rule fold_mapSet_distinct) simp
  with kr have "map_of ?m k = Some r" by simp
  then show ?thesis
    unfolding map_of_fold_mapSet k by (simp split: if_splits)
qed

lemma removeDuplicateReadings_timestamps:
  "r_timestamp ` set (removeDuplicateReadings rs) = r_timestamp ` set rs"
proof -
  let ?m = "fold (\<lambda>r m. mapSet m (r_timestamp r) r) rs []"
  have keyed: "\<forall>(k, v)\<in>set ?m. k = r_timestamp v"
    by (rule fold_mapSet_keyed) simp
  then have "map r_timestamp (removeDuplicateReadings rs) = map fst ?m"
    unfolding removeDuplicateReadings_def by (auto simp add: case_prod_unfold)
  then have "set (map r_timestamp (removeDuplicateReadings rs)) = set (map fst ?m)"
    by (simp only:)
  then show ?thesis
    by (simp add: fold_mapSet_keys)
qed

lemma distinct_map_sort_key:
  "distinct (map f xs) \<Longrightarrow> distinct (map f (sort_key g xs))"
  by (simp add: distinct_map)

subsection \<open>The window\<close>

text \<open>
  C7, as stated, fails for an empty incoming list: \<open>readGlucoseData\<close> then writes nothing, so
  an entry of the existing window that has meanwhile become older than 24 hours stays.
\<close>

theorem merge_empty_incoming_counterexample:
  "glucoseReadings (readGlucoseData formatTimeUTC 86400001 []
      \<lparr>currentGlucoseState = None,
       glucoseReadings = [\<lparr>r_value = 100, r_timestamp = 0, r_label = ''00:00''\<rparr>]\<rparr>)
     = [\<lparr>r_value = 100, r_timestamp = 0, r_label = ''00:00''\<rparr>]
   \<and> r_timestamp \<lparr>r_value = 100, r_timestamp = 0, r_label = ''00:00''\<rparr>
       \<le> 86400001 - 24 * 60 * 60 * 1000"
  by (simp add: readGlucoseData_def)

text \<open>
  C7, amended. For every existing window, every non-empty incoming list and every time
  \<open>now\<close>, the new window has no two entries with the same timestamp, each entry being the
  last reading with its timestamp in the existing window followed by the incoming
  readings; it is sorted by timestamp; no entry has a timestamp at or before
  \<open>now - 24 h\<close>; and every timestamp after \<open>now - 24 h\<close> of the existing or the incoming
  readings occurs in it. For an empty incoming list the state is returned unchanged.
\<close>

theorem readGlucoseData_window:
  "(readings \<noteq> [] \<longrightarrow>
      (let w = glucoseReadings (readGlucoseData formatTime now readings st);
           allReadings = glucoseReadings st @ map (formatReading formatTime) readings
       in distinct (map r_timestamp w)
          \<and> sorted (map r_timestamp w)
          \<and> (\<forall>r\<in>set w. r_timestamp r > now - 24 * 60 * 60 * 1000)
          \<and> (\<forall>r\<in>set w. r = last (filter (\<lambda>x. r_timestamp x = r_timestamp r) allReadings))
          \<and> r_timestamp ` set w
              = {t \<in> r_timestamp ` set allReadings. t > now - 24 * 60 * 60 * 1000}))
   \<and> (readings = [] \<longrightarrow> readGlucoseData formatTime now readings st = st)"
proof (intro conjI impI)
  assume ne: "readings \<noteq> []"
  define allReadings where "allReadings = glucoseReadings st @ map (formatReading formatTime) readings"
  define u where "u = removeDuplicateReadings allReadings"
  define w where "w = filter (\<lambda>reading. r_timestamp reading > now - 24 * 60 * 60 * 1000)
                        (sort_key r_timestamp u)"
  have w: "glucoseReadings (readGlucoseData formatTime now readings st) = w"
    using ne by (simp add: readGlucoseData_def Let_def w_def u_def allReadings_def)
  have d: "distinct (map r_timestamp w)"
    unfolding w_def u_def
    by (intro distinct_map_filter distinct_map_sort_key removeDuplicateReadings_distinct)
  have s: "sorted (map r_timestamp w)"
    unfolding w_def by (intro sorted_filter sorted_sort_key)
  have c: "\<forall>r\<in>set w. r_timestamp r > now - 24 * 60 * 60 * 1000"
    by (simp add: w_def)
  have l: "\<forall>r\<in>set w. r = last (filter (\<lambda>x. r_timestamp x = r_timestamp r) allReadings)"
  proof
    fix r assume "r \<in> set w"
    then have "r \<in> set (removeDuplicateReadings allReadings)"
      by (simp add: w_def u_def)
    then show "r = last (filter (\<lambda>x. r_timestamp x = r_timestamp r) allReadings)"
      by (rule removeDuplicateReadings_last_seen)
  qed
  have sw: "set w = {r \<in> set u. r_timestamp r > now - 24 * 60 * 60 * 1000}"
    by (auto simp add: w_def)
  have tu: "r_timestamp ` set u = r_timestamp ` set allReadings"
    unfolding u_def by (rule removeDuplicateReadings_timestamps)
  have t: "r_timestamp ` set w
        = {t \<in> r_timestamp ` set allReadings. t > now - 24 * 60 * 60 * 1000}"
  proof (intro set_eqI iffI)
    fix t assume "t \<in> r_timestamp ` set w"
    then obtain r where "r \<in> set u" "r_timestamp r > now - 24 * 60 * 60 * 1000" "t = r_timestamp r"
      unfolding sw by blast
    then show "t \<in> {t \<in> r_timestamp ` set allReadings. t > now - 24 * 60 * 60 * 1000}"
      using tu by blast
  next
    fix t assume "t \<in> {t \<in> r_timestamp ` set allReadings. t > now - 24 * 60 * 60 * 1000}"
    then have "t \<in> r_timestamp ` set u" and gt: "t > now - 24 * 60 * 60 * 1000"
      using tu by simp_all
    then obtain r where "r \<in> set u" "t = r_timestamp r" by blast
    with gt show "t \<in> r_timestamp ` set w"
      unfolding sw by blast
  qed
  show "let w = glucoseReadings (readGlucoseData formatTime now readings st);
           allReadings = glucoseReadings st @ map (formatReading formatTime) readings
       in distinct (map r_timestamp w)
          \<and> sorted (map r_timestamp w)
          \<and> (\<forall>r\<in>set w. r_timestamp r > now - 24 * 60 * 60 * 1000)
          \<and> (\<forall>r\<in>set w. r = last (filter (\<lambda>x. r_timestamp x = r_timestamp r) allReadings))
          \<and> r_timestamp ` set w
              = {t \<in> r_timestamp ` set allReadings. t > now - 24 * 60 * 60 * 1000}"
    unfolding Let_def w allReadings_def[symmetric]
    by (intro conjI d s c l t)
next
  assume "readings = []"
  then show "readGlucoseData formatTime now readings st = st"
    by (simp add: readGlucoseData_def)
qed

theorem readGlucoseData_window_witness:
  "sampleReadings \<noteq> []
   \<and> distinct (map r_timestamp
         (glucoseReadings (readGlucoseData formatTimeUTC 86400001 sampleReadings sampleState)))
   \<and> sorted (map r_timestamp
         (glucoseReadings (readGlucoseData formatTimeUTC 86400001 sampleReadings sampleState)))
   \<and> readGlucoseData formatTimeUTC 86400001 [] sampleState = sampleState"
proof -
  have ne: "sampleReadings \<noteq> []"
    by (simp add: sampleReadings_def)
  from readGlucoseData_window[of sampleReadings formatTimeUTC 86400001 sampleState] ne
  have "distinct (map r_timestamp
          (glucoseReadings (readGlucoseData formatTimeUTC 86400001 sampleReadings sampleState)))
        \<and> sorted (map r_timestamp
          (glucoseReadings (readGlucoseData formatTimeUTC 86400001 sampleReadings sampleState)))"
    by (simp add: Let_def)
  moreover from readGlucoseData_window[of "[]" formatTimeUTC 86400001 sampleState]
  have "readGlucoseData formatTimeUTC 86400001 [] sampleState = sampleState"
    by simp
  ultimately show ?thesis
    using ne by simp
qed

lemma readGlucoseData_sample:
  "glucoseReadings (readGlucoseData formatTimeUTC 86400001 sampleReadings sampleState)
   = [\<lparr>r_value = 2, r_timestamp = 5000, r_label = ''00:00''\<rparr>,
      \<lparr>r_value = 3, r_timestamp = 86400000, r_label = ''00:00''\<rparr>,
      \<lparr>r_value = 90, r_timestamp = 87400000, r_label = ''00:16''\<rparr>]"
  by code_simp

end
